theory Spec2Isabelle
  imports Main "HOL-Library.Multiset"
begin

section \<open>The cursor protocol of \<^verbatim>\<open>DataStream<T>\<close>\<close>

text \<open>
  Every stream kind of \<^verbatim>\<open>processing.h\<close> implements the abstract class
  \<^verbatim>\<open>DataStream<T>::Iterator\<close>: \<^verbatim>\<open>operator*\<close>, \<^verbatim>\<open>operator++\<close>, \<^verbatim>\<open>getIsEnd\<close> and
  \<^verbatim>\<open>operator!=\<close>.  The virtual dispatch is a record of functions over the state
  type \<open>'s\<close> of the concrete cursor.

  \<^item> A read yields the element and the state after the read: a transform closure
    that captured variables by reference changes them when it is called, and that
    captured store travels with the cursor state.
  \<^item> \<^verbatim>\<open>throw std::runtime_error\<close> is the value \<open>Inl RuntimeError\<close>.  A read outside
    a \<^verbatim>\<open>std::vector\<close> or \<^verbatim>\<open>std::getline\<close> on a null \<^verbatim>\<open>current_file\<close> has no
    defined result in C++ and raises nothing: it is \<open>Inl UndefinedBehaviour\<close>, and
    the run stops there.
  \<^item> \<^verbatim>\<open>operator++\<close> of an adapter may loop over its upstream; \<open>None\<close> stands for a
    call that does not return.
  \<^item> The sinks and the key-function join compare a cursor with the cursor that
    \<^verbatim>\<open>end()\<close> builds; \<open>neq_end\<close> is \<^verbatim>\<open>operator!=\<close> against that cursor.

  A stream is its cursor class together with the outcome of \<^verbatim>\<open>begin()\<close>; the pipe
  \<^verbatim>\<open>stream | stage\<close> is the application \<open>stage stream\<close>.
\<close>

datatype error = RuntimeError | UndefinedBehaviour

type_synonym 'x result = "error + 'x"

record ('s, 'a) Iterator =
  deref :: "'s \<Rightarrow> ('a \<times> 's) result"
  incr :: "'s \<Rightarrow> 's result option"
  getIsEnd :: "'s \<Rightarrow> bool"
  neq_end :: "'s \<Rightarrow> bool"

record ('s, 'a) DataStream =
  cursor :: "('s, 'a) Iterator"
  begin_ptr :: "'s result option"

text \<open>
  \<open>yields It s xs\<close>: from state \<open>s\<close> the cursor \<open>It\<close> delivers exactly the elements
  \<open>xs\<close> and then reports end-of-stream; reads leave its state alone, and
  \<^verbatim>\<open>operator!=\<close> against the end cursor agrees with \<^verbatim>\<open>getIsEnd\<close>.  It is the
  hypothesis under which an adapter is studied apart from its upstream.
\<close>

inductive yields :: "('s, 'a) Iterator \<Rightarrow> 's \<Rightarrow> 'a list \<Rightarrow> bool" for It where
  yields_end: "getIsEnd It s \<Longrightarrow> \<not> neq_end It s \<Longrightarrow> yields It s []"
| yields_next: "\<not> getIsEnd It s \<Longrightarrow> neq_end It s \<Longrightarrow> deref It s = Inr (x, s)
     \<Longrightarrow> incr It s = Some (Inr s') \<Longrightarrow> yields It s' xs \<Longrightarrow> yields It s (x # xs)"

definition stream_yields :: "('s, 'a) DataStream \<Rightarrow> 'a list \<Rightarrow> bool" where
  "stream_yields S xs =
     (case begin_ptr S of
        Some (Inr s) \<Rightarrow> yields (cursor S) s xs
      | _ \<Rightarrow> False)"

text \<open>\<open>advance It n s\<close>: \<^verbatim>\<open>++it\<close> applied \<open>n\<close> times.\<close>

fun advance :: "('s, 'a) Iterator \<Rightarrow> nat \<Rightarrow> 's \<Rightarrow> 's result option" where
  "advance It 0 s = Some (Inr s)"
| "advance It (Suc n) s =
     (case incr It s of
        None \<Rightarrow> None
      | Some (Inl e) \<Rightarrow> Some (Inl e)
      | Some (Inr s1) \<Rightarrow> advance It n s1)"

text \<open>
  \<^verbatim>\<open>size_t\<close> of an LP64 platform: \<^verbatim>\<open>++\<close> on \<open>SIZE_MAX\<close> gives 0.  The wrap-around is
  written out for the two counters that grow with every \<^verbatim>\<open>++\<close> of their cursor
  (\<^verbatim>\<open>VectorIterator::index\<close> and \<^verbatim>\<open>AggregateByKeyDataStream::Iterator::index_\<close>).
  \<^verbatim>\<open>pos_in_line\<close> and \<^verbatim>\<open>current_right_index\<close> are incremented only while they are
  below the size of a string or vector, so they are plain naturals.  No vector
  or string of the program is longer than \<open>SIZE_MAX\<close>.
\<close>

definition SIZE_MAX :: nat where
  "SIZE_MAX = 2 ^ 64 - 1"

definition size_t_incr :: "nat \<Rightarrow> nat" where
  "size_t_incr i = (i + 1) mod (SIZE_MAX + 1)"

subsection \<open>\<^verbatim>\<open>VectorDataStream<T>\<close>, \<^verbatim>\<open>AsDataFlow\<close>\<close>

text \<open>
  \<^verbatim>\<open>data\<close> points to the stream's vector; the default constructor, which builds
  the end cursor, sets only \<^verbatim>\<open>is_end\<close>, so there \<^verbatim>\<open>data\<close> is no vector (\<open>None\<close>).
  The constructor of the begin cursor sets \<^verbatim>\<open>is_end(false)\<close> whatever the vector
  holds.  \<^verbatim>\<open>is_end\<close> is a stored flag that \<^verbatim>\<open>operator++\<close> only ever sets;
  \<^verbatim>\<open>index\<close> is a \<^verbatim>\<open>size_t\<close> that \<^verbatim>\<open>operator++\<close> increments without a bound.
\<close>

record 'a VectorIterator =
  v_data :: "'a list option"
  v_index :: nat
  v_is_end :: bool

definition VectorIterator_begin :: "'a list \<Rightarrow> 'a VectorIterator" where
  "VectorIterator_begin xs = \<lparr>v_data = Some xs, v_index = 0, v_is_end = False\<rparr>"

definition VectorIterator_end :: "'a VectorIterator" where
  "VectorIterator_end = \<lparr>v_data = None, v_index = 0, v_is_end = True\<rparr>"

definition VectorIterator_deref :: "'a VectorIterator \<Rightarrow> ('a \<times> 'a VectorIterator) result" where
  "VectorIterator_deref s =
     (case v_data s of
        None \<Rightarrow> Inl UndefinedBehaviour
      | Some xs \<Rightarrow> if v_index s < length xs then Inr (xs ! v_index s, s)
                   else Inl UndefinedBehaviour)"

definition VectorIterator_incr :: "'a VectorIterator \<Rightarrow> 'a VectorIterator result option" where
  "VectorIterator_incr s =
     (let s1 = s\<lparr>v_index := size_t_incr (v_index s)\<rparr>
      in Some (Inr (case v_data s1 of
                      None \<Rightarrow> s1
                    | Some xs \<Rightarrow> if v_index s1 \<ge> length xs then s1\<lparr>v_is_end := True\<rparr> else s1)))"

definition VectorIterator_neq :: "'a VectorIterator \<Rightarrow> 'a VectorIterator \<Rightarrow> bool" where
  "VectorIterator_neq s other = (\<not> v_is_end s \<or> \<not> v_is_end other)"

definition VectorIterator :: "('a VectorIterator, 'a) Iterator" where
  "VectorIterator =
     \<lparr>deref = VectorIterator_deref,
      incr = VectorIterator_incr,
      getIsEnd = v_is_end,
      neq_end = (\<lambda>s. VectorIterator_neq s VectorIterator_end)\<rparr>"

definition VectorDataStream :: "'a list \<Rightarrow> ('a VectorIterator, 'a) DataStream" where
  "VectorDataStream data =
     \<lparr>cursor = VectorIterator, begin_ptr = Some (Inr (VectorIterator_begin data))\<rparr>"

definition AsDataFlow :: "'a list \<Rightarrow> ('a VectorIterator, 'a) DataStream" where
  "AsDataFlow data = VectorDataStream data"

subsection \<open>The sink \<^verbatim>\<open>AsVector\<close>\<close>

text \<open>
  \<^verbatim>\<open>while (it != end) { result.push_back(*it); ++it; }\<close>.  The loop also returns
  the cursor state it stops in, which holds the store of a transform closure.
\<close>

partial_function (option) AsVector_loop ::
  "('s, 'a) Iterator \<Rightarrow> 's \<Rightarrow> 'a list \<Rightarrow> ('a list \<times> 's) result option" where
  "AsVector_loop It s result =
     (if neq_end It s then
        (case deref It s of
           Inl e \<Rightarrow> Some (Inl e)
         | Inr (x, s1) \<Rightarrow>
             (case incr It s1 of
                None \<Rightarrow> None
              | Some (Inl e) \<Rightarrow> Some (Inl e)
              | Some (Inr s2) \<Rightarrow> AsVector_loop It s2 (result @ [x])))
      else Some (Inr (result, s)))"

definition AsVector_run :: "('s, 'a) DataStream \<Rightarrow> ('a list \<times> 's) result option" where
  "AsVector_run S =
     (case begin_ptr S of
        None \<Rightarrow> None
      | Some (Inl e) \<Rightarrow> Some (Inl e)
      | Some (Inr s) \<Rightarrow> AsVector_loop (cursor S) s [])"

definition AsVector :: "('s, 'a) DataStream \<Rightarrow> 'a list result option" where
  "AsVector S =
     (case AsVector_run S of
        None \<Rightarrow> None
      | Some (Inl e) \<Rightarrow> Some (Inl e)
      | Some (Inr (result, s)) \<Rightarrow> Some (Inr result))"

subsection \<open>\<^verbatim>\<open>DirStream\<close>\<close>

text \<open>
  The filesystem walk is the external collaborator: \<open>d_entries\<close> are the entries
  the \<^verbatim>\<open>directory_iterator\<close> (flat or recursive) has still to visit, each with
  the answer of \<^verbatim>\<open>fs::is_regular_file\<close>; the iterator equals \<^verbatim>\<open>fs::end(it)\<close> when
  none is left.  \<^verbatim>\<open>operator++\<close> applies \<^verbatim>\<open>++it\<close> without looking at \<^verbatim>\<open>is_end\<close>.  On a
  past-the-end \<^verbatim>\<open>directory_iterator\<close> the C++ standard gives \<^verbatim>\<open>++it\<close> no meaning;
  GNU libstdc++ throws \<^verbatim>\<open>std::filesystem::filesystem_error\<close>, a
  \<^verbatim>\<open>std::runtime_error\<close>, before anything of the cursor is changed, and that is
  what \<open>DirIterator_incr\<close> does.
\<close>

record 'p DirIterator =
  d_entries :: "('p \<times> bool) list"
  d_is_end :: bool

fun skip_non_regular_files :: "('p \<times> bool) list \<Rightarrow> bool \<Rightarrow> 'p DirIterator" where
  "skip_non_regular_files [] is_end = \<lparr>d_entries = [], d_is_end = True\<rparr>"
| "skip_non_regular_files ((p, regular) # rest) is_end =
     (if regular then \<lparr>d_entries = (p, regular) # rest, d_is_end = is_end\<rparr>
      else skip_non_regular_files rest is_end)"

definition DirIterator_begin :: "('p \<times> bool) list \<Rightarrow> 'p DirIterator" where
  "DirIterator_begin listing = skip_non_regular_files listing False"

definition DirIterator_deref :: "'p DirIterator \<Rightarrow> ('p \<times> 'p DirIterator) result" where
  "DirIterator_deref s =
     (case d_entries s of
        [] \<Rightarrow> Inl UndefinedBehaviour
      | (p, regular) # rest \<Rightarrow> Inr (p, s))"

definition DirIterator_incr :: "'p DirIterator \<Rightarrow> 'p DirIterator result option" where
  "DirIterator_incr s =
     (case d_entries s of
        [] \<Rightarrow> Some (Inl RuntimeError)
      | e # rest \<Rightarrow> Some (Inr (skip_non_regular_files rest (d_is_end s))))"

definition DirIterator :: "('p DirIterator, 'p) Iterator" where
  "DirIterator =
     \<lparr>deref = DirIterator_deref,
      incr = DirIterator_incr,
      getIsEnd = d_is_end,
      neq_end = (\<lambda>s. \<not> d_is_end s)\<rparr>"

text \<open>
  \<^verbatim>\<open>Dir(path, recursive)\<close>: the constructor throws when the path does not exist
  (\<open>listing = None\<close>).
\<close>

definition Dir :: "('p \<times> bool) list option \<Rightarrow> ('p DirIterator, 'p) DataStream result" where
  "Dir listing =
     (case listing of
        None \<Rightarrow> Inl RuntimeError
      | Some es \<Rightarrow> Inr \<lparr>cursor = DirIterator, begin_ptr = Some (Inr (DirIterator_begin es))\<rparr>)"

subsection \<open>\<^verbatim>\<open>FileContentStream\<close>, \<^verbatim>\<open>OpenFiles\<close>\<close>

text \<open>
  \<^verbatim>\<open>std::ifstream\<close> and \<^verbatim>\<open>std::getline\<close> belong to the C++ library; they are modelled
  after the standard.  \<open>fs p\<close> is the content of the file at path \<open>p\<close>, \<open>None\<close>
  when it cannot be opened.  A stream converts to \<^verbatim>\<open>true\<close> when \<^verbatim>\<open>failbit\<close> is not
  set.  \<^verbatim>\<open>getline\<close> on a stream that is not good sets \<^verbatim>\<open>failbit\<close> and leaves the
  string; otherwise it erases the string and extracts up to the next newline,
  which it drops; reaching the end of the file sets \<^verbatim>\<open>eofbit\<close>, and extracting
  nothing at all sets \<^verbatim>\<open>failbit\<close>.
\<close>

record ifstream =
  buf :: string
  eofbit :: bool
  failbit :: bool

definition ifstream_open :: "('p \<Rightarrow> string option) \<Rightarrow> 'p \<Rightarrow> ifstream" where
  "ifstream_open fs p =
     (case fs p of
        None \<Rightarrow> \<lparr>buf = [], eofbit = False, failbit = True\<rparr>
      | Some content \<Rightarrow> \<lparr>buf = content, eofbit = False, failbit = False\<rparr>)"

definition newline :: char where
  "newline = CHR 0x0A"

definition getline :: "ifstream \<Rightarrow> string \<Rightarrow> ifstream \<times> string" where
  "getline f str =
     (if eofbit f \<or> failbit f then (f\<lparr>failbit := True\<rparr>, str)
      else if buf f = [] then (f\<lparr>eofbit := True, failbit := True\<rparr>, [])
      else
        (let line = takeWhile (\<lambda>c. c \<noteq> newline) (buf f);
             rest = dropWhile (\<lambda>c. c \<noteq> newline) (buf f)
         in if rest = [] then (f\<lparr>buf := [], eofbit := True\<rparr>, line)
            else (f\<lparr>buf := tl rest\<rparr>, line)))"

text \<open>
  \<^verbatim>\<open>begin_ptr\<close> uses the one-argument constructor, which leaves \<^verbatim>\<open>path_end\<close> null,
  so the loop test \<^verbatim>\<open>*path_it != *path_end\<close> hands the upstream's \<^verbatim>\<open>operator!=\<close> an
  \<^verbatim>\<open>other\<close> bound to no object.  The operator only takes the address of \<^verbatim>\<open>other\<close>
  for its \<^verbatim>\<open>dynamic_cast\<close>, gets a null pointer and answers \<^verbatim>\<open>true\<close>
  (\<^verbatim>\<open>if (!other_ptr) return true;\<close>, in every cursor class of the library); that
  answer is taken here.
\<close>

definition neq_null_other :: bool where
  "neq_null_other = True"

text \<open>
  Opening a file is an effect on the world outside; \<open>opened\<close> records, in order,
  the paths that have been handed to the constructor of \<^verbatim>\<open>std::ifstream\<close>.  It is
  not a member of the class and no function reads it.
\<close>

record ('s, 'p) FileIterator =
  path_it :: 's
  current_file :: "ifstream option"
  current_line :: string
  f_is_end :: bool
  opened :: "'p list"

partial_function (option) open_next_file_loop ::
  "('p \<Rightarrow> string option) \<Rightarrow> ('s, 'p) Iterator \<Rightarrow> ('s, 'p) FileIterator
     \<Rightarrow> ('s, 'p) FileIterator result option" where
  "open_next_file_loop fs P st =
     (if \<not> getIsEnd P (path_it st) \<and> neq_null_other then
        (case deref P (path_it st) of
           Inl e \<Rightarrow> Some (Inl e)
         | Inr (file_path, s0) \<Rightarrow>
             (let f = ifstream_open fs file_path in
              if \<not> failbit f then
                (case incr P s0 of
                   None \<Rightarrow> None
                 | Some (Inl e) \<Rightarrow> Some (Inl e)
                 | Some (Inr s1) \<Rightarrow>
                     (case getline f (current_line st) of
                        (f1, line) \<Rightarrow>
                          if \<not> failbit f1 \<and> line \<noteq> [] then
                            Some (Inr \<lparr>path_it = s1, current_file = Some f1,
                                       current_line = line, f_is_end = False,
                                       opened = opened st @ [file_path]\<rparr>)
                          else
                            (case incr P s1 of
                               None \<Rightarrow> None
                             | Some (Inl e) \<Rightarrow> Some (Inl e)
                             | Some (Inr s2) \<Rightarrow>
                                 open_next_file_loop fs P
                                   \<lparr>path_it = s2, current_file = None,
                                    current_line = line, f_is_end = False,
                                    opened = opened st @ [file_path]\<rparr>)))
              else
                (case incr P s0 of
                   None \<Rightarrow> None
                 | Some (Inl e) \<Rightarrow> Some (Inl e)
                 | Some (Inr s1) \<Rightarrow>
                     open_next_file_loop fs P
                       (st\<lparr>path_it := s1, current_file := None,
                           opened := opened st @ [file_path]\<rparr>))))
      else Some (Inr (st\<lparr>current_file := None, f_is_end := True\<rparr>)))"

definition open_next_file ::
  "('p \<Rightarrow> string option) \<Rightarrow> ('s, 'p) Iterator \<Rightarrow> ('s, 'p) FileIterator
     \<Rightarrow> ('s, 'p) FileIterator result option" where
  "open_next_file fs P st = open_next_file_loop fs P (st\<lparr>current_line := []\<rparr>)"

definition FileIterator_deref ::
  "('s, 'p) FileIterator \<Rightarrow> (string \<times> ('s, 'p) FileIterator) result" where
  "FileIterator_deref st =
     (if f_is_end st then Inl RuntimeError
      else case current_file st of
             None \<Rightarrow> Inl RuntimeError
           | Some f \<Rightarrow>
               if failbit f then Inl RuntimeError
               else Inr (if current_line st = [] then [] else current_line st, st))"

definition FileIterator_incr ::
  "('p \<Rightarrow> string option) \<Rightarrow> ('s, 'p) Iterator \<Rightarrow> ('s, 'p) FileIterator
     \<Rightarrow> ('s, 'p) FileIterator result option" where
  "FileIterator_incr fs P st =
     (if f_is_end st then Some (Inr st)
      else case current_file st of
             None \<Rightarrow> Some (Inl UndefinedBehaviour)
           | Some f \<Rightarrow>
               (case getline f (current_line st) of
                  (f1, line) \<Rightarrow>
                    if \<not> failbit f1 then
                      Some (Inr (st\<lparr>current_file := Some f1, current_line := line\<rparr>))
                    else open_next_file fs P (st\<lparr>current_file := None, current_line := line\<rparr>)))"

definition FileIterator ::
  "('p \<Rightarrow> string option) \<Rightarrow> ('s, 'p) Iterator
     \<Rightarrow> (('s, 'p) FileIterator, string) Iterator" where
  "FileIterator fs P =
     \<lparr>deref = FileIterator_deref,
      incr = FileIterator_incr fs P,
      getIsEnd = f_is_end,
      neq_end = (\<lambda>st. \<not> f_is_end st)\<rparr>"

definition OpenFiles ::
  "('p \<Rightarrow> string option) \<Rightarrow> ('s, 'p) DataStream
     \<Rightarrow> (('s, 'p) FileIterator, string) DataStream" where
  "OpenFiles fs stream =
     \<lparr>cursor = FileIterator fs (cursor stream),
      begin_ptr =
        (case begin_ptr stream of
           None \<Rightarrow> None
         | Some (Inl e) \<Rightarrow> Some (Inl e)
         | Some (Inr s) \<Rightarrow>
             open_next_file fs (cursor stream)
               \<lparr>path_it = s, current_file = None, current_line = [], f_is_end = False,
                opened = []\<rparr>)\<rparr>"

subsection \<open>\<^verbatim>\<open>FilteredDataStream<T>\<close>, \<^verbatim>\<open>Filter\<close>\<close>

partial_function (option) skipInvalid ::
  "('a \<Rightarrow> bool) \<Rightarrow> ('s, 'a) Iterator \<Rightarrow> 's \<Rightarrow> 's result option" where
  "skipInvalid predicate up s =
     (if \<not> getIsEnd up s then
        (case deref up s of
           Inl e \<Rightarrow> Some (Inl e)
         | Inr (x, s1) \<Rightarrow>
             if \<not> predicate x then
               (case incr up s1 of
                  None \<Rightarrow> None
                | Some (Inl e) \<Rightarrow> Some (Inl e)
                | Some (Inr s2) \<Rightarrow> skipInvalid predicate up s2)
             else Some (Inr s1))
      else Some (Inr s))"

definition FilteredIterator_incr ::
  "('a \<Rightarrow> bool) \<Rightarrow> ('s, 'a) Iterator \<Rightarrow> 's \<Rightarrow> 's result option" where
  "FilteredIterator_incr predicate up s =
     (case incr up s of
        None \<Rightarrow> None
      | Some (Inl e) \<Rightarrow> Some (Inl e)
      | Some (Inr s1) \<Rightarrow> skipInvalid predicate up s1)"

definition FilteredIterator :: "('a \<Rightarrow> bool) \<Rightarrow> ('s, 'a) Iterator \<Rightarrow> ('s, 'a) Iterator" where
  "FilteredIterator predicate up =
     \<lparr>deref = deref up,
      incr = FilteredIterator_incr predicate up,
      getIsEnd = getIsEnd up,
      neq_end = neq_end up\<rparr>"

definition Filter :: "('a \<Rightarrow> bool) \<Rightarrow> ('s, 'a) DataStream \<Rightarrow> ('s, 'a) DataStream" where
  "Filter predicate stream =
     \<lparr>cursor = FilteredIterator predicate (cursor stream),
      begin_ptr =
        (case begin_ptr stream of
           None \<Rightarrow> None
         | Some (Inl e) \<Rightarrow> Some (Inl e)
         | Some (Inr s) \<Rightarrow> skipInvalid predicate (cursor stream) s)\<rparr>"

subsection \<open>\<^verbatim>\<open>TransformedDataStream<T>\<close>, \<^verbatim>\<open>Transform\<close>\<close>

text \<open>
  \<^verbatim>\<open>transform_func\<close> is a \<^verbatim>\<open>std::function<T(const T&)>\<close>.  A closure such as the
  running total of the tests writes to variables it captured by reference; that
  store \<open>'w\<close> is passed in and handed back.  \<^verbatim>\<open>operator*\<close> is the only place that
  calls the function; \<^verbatim>\<open>operator++\<close> moves the upstream and nothing else.
\<close>

record ('s, 'w) TransformedIterator =
  t_it :: 's
  t_store :: 'w

definition TransformedIterator_deref ::
  "('w \<Rightarrow> 'a \<Rightarrow> 'a \<times> 'w) \<Rightarrow> ('s, 'a) Iterator \<Rightarrow> ('s, 'w) TransformedIterator
     \<Rightarrow> ('a \<times> ('s, 'w) TransformedIterator) result" where
  "TransformedIterator_deref transform_func up st =
     (case deref up (t_it st) of
        Inl e \<Rightarrow> Inl e
      | Inr (x, s1) \<Rightarrow>
          (case transform_func (t_store st) x of
             (y, w) \<Rightarrow> Inr (y, \<lparr>t_it = s1, t_store = w\<rparr>)))"

definition TransformedIterator_incr ::
  "('s, 'a) Iterator \<Rightarrow> ('s, 'w) TransformedIterator
     \<Rightarrow> ('s, 'w) TransformedIterator result option" where
  "TransformedIterator_incr up st =
     (case incr up (t_it st) of
        None \<Rightarrow> None
      | Some (Inl e) \<Rightarrow> Some (Inl e)
      | Some (Inr s1) \<Rightarrow> Some (Inr (st\<lparr>t_it := s1\<rparr>)))"

definition TransformedIterator ::
  "('w \<Rightarrow> 'a \<Rightarrow> 'a \<times> 'w) \<Rightarrow> ('s, 'a) Iterator
     \<Rightarrow> (('s, 'w) TransformedIterator, 'a) Iterator" where
  "TransformedIterator transform_func up =
     \<lparr>deref = TransformedIterator_deref transform_func up,
      incr = TransformedIterator_incr up,
      getIsEnd = (\<lambda>st. getIsEnd up (t_it st)),
      neq_end = (\<lambda>st. neq_end up (t_it st))\<rparr>"

definition Transform ::
  "('w \<Rightarrow> 'a \<Rightarrow> 'a \<times> 'w) \<Rightarrow> 'w \<Rightarrow> ('s, 'a) DataStream
     \<Rightarrow> (('s, 'w) TransformedIterator, 'a) DataStream" where
  "Transform transform_func store stream =
     \<lparr>cursor = TransformedIterator transform_func (cursor stream),
      begin_ptr =
        (case begin_ptr stream of
           None \<Rightarrow> None
         | Some (Inl e) \<Rightarrow> Some (Inl e)
         | Some (Inr s) \<Rightarrow> Some (Inr \<lparr>t_it = s, t_store = store\<rparr>))\<rparr>"

subsection \<open>\<^verbatim>\<open>SplitDataStream<T>\<close>, \<^verbatim>\<open>Split\<close>\<close>

text \<open>
  The \<^verbatim>\<open>for\<close> loop of \<^verbatim>\<open>skipToNext\<close> over the current upstream element.  The first
  component of the result tells whether the loop left through \<^verbatim>\<open>return\<close> (a
  delimiter closed a token) or ran to the end of the element.
\<close>

function scan_line :: "char set \<Rightarrow> string \<Rightarrow> nat \<Rightarrow> string \<Rightarrow> bool \<times> nat \<times> string" where
  "scan_line delimiters line pos cur =
     (if pos < length line then
        (if line ! pos \<in> delimiters then
           (if cur \<noteq> [] then (True, pos + 1, cur)
            else scan_line delimiters line (pos + 1) cur)
         else scan_line delimiters line (pos + 1) (cur @ [line ! pos]))
      else (False, pos, cur))"
  by pat_completeness auto
termination
  by (relation "measure (\<lambda>(delimiters, line, pos, cur). length line - pos)") auto

record 's SplitIterator =
  sp_it :: 's
  sp_current_line :: string
  pos_in_line :: nat

partial_function (option) skipToNext_loop ::
  "char set \<Rightarrow> ('s, string) Iterator \<Rightarrow> 's SplitIterator \<Rightarrow> 's SplitIterator result option" where
  "skipToNext_loop delimiters up st =
     (if \<not> getIsEnd up (sp_it st) then
        (case deref up (sp_it st) of
           Inl e \<Rightarrow> Some (Inl e)
         | Inr (line, s1) \<Rightarrow>
             (case scan_line delimiters line (pos_in_line st) (sp_current_line st) of
                (returned, pos, cur) \<Rightarrow>
                  if returned then
                    Some (Inr \<lparr>sp_it = s1, sp_current_line = cur, pos_in_line = pos\<rparr>)
                  else
                    (case incr up s1 of
                       None \<Rightarrow> None
                     | Some (Inl e) \<Rightarrow> Some (Inl e)
                     | Some (Inr s2) \<Rightarrow>
                         if cur \<noteq> [] then
                           Some (Inr \<lparr>sp_it = s2, sp_current_line = cur, pos_in_line = 0\<rparr>)
                         else
                           skipToNext_loop delimiters up
                             \<lparr>sp_it = s2, sp_current_line = cur, pos_in_line = 0\<rparr>)))
      else Some (Inr st))"

definition skipToNext ::
  "char set \<Rightarrow> ('s, string) Iterator \<Rightarrow> 's SplitIterator \<Rightarrow> 's SplitIterator result option" where
  "skipToNext delimiters up st = skipToNext_loop delimiters up (st\<lparr>sp_current_line := []\<rparr>)"

definition SplitIterator ::
  "char set \<Rightarrow> ('s, string) Iterator \<Rightarrow> ('s SplitIterator, string) Iterator" where
  "SplitIterator delimiters up =
     \<lparr>deref = (\<lambda>st. Inr (sp_current_line st, st)),
      incr = skipToNext delimiters up,
      getIsEnd = (\<lambda>st. getIsEnd up (sp_it st) \<and> sp_current_line st = []),
      neq_end = (\<lambda>st. neq_end up (sp_it st) \<or> sp_current_line st \<noteq> [])\<rparr>"

definition Split ::
  "string \<Rightarrow> ('s, string) DataStream \<Rightarrow> ('s SplitIterator, string) DataStream" where
  "Split filter_string stream =
     \<lparr>cursor = SplitIterator (set filter_string) (cursor stream),
      begin_ptr =
        (case begin_ptr stream of
           None \<Rightarrow> None
         | Some (Inl e) \<Rightarrow> Some (Inl e)
         | Some (Inr s) \<Rightarrow>
             skipToNext (set filter_string) (cursor stream)
               \<lparr>sp_it = s, sp_current_line = [], pos_in_line = 0\<rparr>)\<rparr>"

subsection \<open>\<^verbatim>\<open>AggregateByKeyDataStream\<close>, \<^verbatim>\<open>AggregateByKey\<close>\<close>

text \<open>
  \<^verbatim>\<open>aggregation_map[key]\<close> of a \<^verbatim>\<open>std::unordered_map\<close>: the entry of the key, or
  a value-initialised accumulator (\<open>dflt\<close>) when the key has none.
\<close>

definition at_key :: "('k \<rightharpoonup> 'v) \<Rightarrow> 'v \<Rightarrow> 'k \<Rightarrow> 'v" where
  "at_key m dflt k = (case m k of None \<Rightarrow> dflt | Some v \<Rightarrow> v)"

partial_function (option) aggregate_loop ::
  "'acc \<Rightarrow> ('a \<Rightarrow> 'acc \<Rightarrow> 'acc) \<Rightarrow> ('a \<Rightarrow> 'k) \<Rightarrow> 'acc \<Rightarrow> ('s, 'a) Iterator \<Rightarrow> 's
     \<Rightarrow> ('k \<rightharpoonup> 'acc) \<Rightarrow> 'k list \<Rightarrow> (('k \<rightharpoonup> 'acc) \<times> 'k list) result option" where
  "aggregate_loop initial_value accumulate_func key_func dflt up s aggregation_map key_order =
     (if \<not> getIsEnd up s then
        (case deref up s of
           Inl e \<Rightarrow> Some (Inl e)
         | Inr (v, s1) \<Rightarrow>
             (let key = key_func v;
                  m1 = (if aggregation_map key = None
                        then aggregation_map(key \<mapsto> initial_value) else aggregation_map);
                  key_order1 = (if aggregation_map key = None
                                then key_order @ [key] else key_order);
                  m2 = m1(key \<mapsto> accumulate_func v (at_key m1 dflt key))
              in case incr up s1 of
                   None \<Rightarrow> None
                 | Some (Inl e) \<Rightarrow> Some (Inl e)
                 | Some (Inr s2) \<Rightarrow>
                     aggregate_loop initial_value accumulate_func key_func dflt up s2
                       m2 key_order1))
      else Some (Inr (aggregation_map, key_order)))"

definition aggregate_results ::
  "'acc \<Rightarrow> ('a \<Rightarrow> 'acc \<Rightarrow> 'acc) \<Rightarrow> ('a \<Rightarrow> 'k) \<Rightarrow> 'acc \<Rightarrow> ('s, 'a) DataStream
     \<Rightarrow> ('k \<times> 'acc) list result option" where
  "aggregate_results initial_value accumulate_func key_func dflt stream =
     (case begin_ptr stream of
        None \<Rightarrow> None
      | Some (Inl e) \<Rightarrow> Some (Inl e)
      | Some (Inr s) \<Rightarrow>
          (case aggregate_loop initial_value accumulate_func key_func dflt (cursor stream) s
                  Map.empty [] of
             None \<Rightarrow> None
           | Some (Inl e) \<Rightarrow> Some (Inl e)
           | Some (Inr (aggregation_map, key_order)) \<Rightarrow>
               Some (Inr (map (\<lambda>key. (key, at_key aggregation_map dflt key)) key_order))))"

text \<open>
  The cursor over \<^verbatim>\<open>results_\<close> keeps no end flag: \<^verbatim>\<open>getIsEnd\<close> compares the
  \<^verbatim>\<open>size_t index_\<close> with the size on every call, and \<^verbatim>\<open>operator++\<close> is \<^verbatim>\<open>++index_\<close>
  with no bound, so here the wrap-around of \<^verbatim>\<open>size_t\<close> is written out.  The end
  cursor has \<^verbatim>\<open>index_ = results_.size()\<close>.
\<close>

definition AggregateByKey_Iterator :: "'r list \<Rightarrow> (nat, 'r) Iterator" where
  "AggregateByKey_Iterator results =
     \<lparr>deref = (\<lambda>index. if index < length results then Inr (results ! index, index)
                       else Inl UndefinedBehaviour),
      incr = (\<lambda>index. Some (Inr (size_t_incr index))),
      getIsEnd = (\<lambda>index. index \<ge> length results),
      neq_end = (\<lambda>index. index \<noteq> length results)\<rparr>"

text \<open>
  The constructor drains the upstream; when that throws, no stream is built
  (\<open>Inl\<close>), and when it does not return, neither does the stage (\<open>None\<close>).
\<close>

definition AggregateByKey ::
  "'acc \<Rightarrow> ('a \<Rightarrow> 'acc \<Rightarrow> 'acc) \<Rightarrow> ('a \<Rightarrow> 'k) \<Rightarrow> 'acc \<Rightarrow> ('s, 'a) DataStream
     \<Rightarrow> (nat, 'k \<times> 'acc) DataStream result option" where
  "AggregateByKey initial_value accumulate_func key_func dflt stream =
     (case aggregate_results initial_value accumulate_func key_func dflt stream of
        None \<Rightarrow> None
      | Some (Inl e) \<Rightarrow> Some (Inl e)
      | Some (Inr results) \<Rightarrow>
          Some (Inr \<lparr>cursor = AggregateByKey_Iterator results, begin_ptr = Some (Inr 0)\<rparr>))"

subsection \<open>\<^verbatim>\<open>KV\<close>, \<^verbatim>\<open>JoinResult\<close>, \<^verbatim>\<open>JoinedDataStream\<close>\<close>

record ('k, 'v) KV =
  key :: 'k
  kv_value :: 'v

record ('l, 'r) JoinResult =
  left_value :: 'l
  right_value :: "'r option"

text \<open>
  The class template \<^verbatim>\<open>JoinedDataStream<Left, Right>\<close> joins a stream of \<^verbatim>\<open>Left\<close>
  with a stream of \<^verbatim>\<open>Right\<close> and emits \<^verbatim>\<open>JoinResult<Left, Right>\<close>.  Of its two
  type arguments it uses the members \<^verbatim>\<open>(*left_it).key\<close>, \<^verbatim>\<open>kv.key\<close> and
  \<^verbatim>\<open>kv.value\<close>; they are the parameters \<open>key_l\<close>, \<open>key_r\<close> and \<open>value_r\<close>.
  \<^verbatim>\<open>right_map\<close> is a \<^verbatim>\<open>std::unordered_map<Left::key_type, std::vector<Right>>\<close>,
  so \<^verbatim>\<open>push_back(kv.value)\<close> stores a \<^verbatim>\<open>Right\<close>: \<open>value_r\<close> is the member followed
  by its conversion to \<^verbatim>\<open>Right\<close>, of type \<open>'r \<Rightarrow> 'r\<close>.  The class is instantiated
  only by types that have these members and this conversion.  \<^verbatim>\<open>KV<K, V>\<close> is a
  \<^verbatim>\<open>Left\<close> but no \<^verbatim>\<open>Right\<close> (its \<^verbatim>\<open>value\<close> is a \<^verbatim>\<open>V\<close>), and the one-argument
  \<^verbatim>\<open>Join(right)\<close> instantiates the class with \<^verbatim>\<open>std::string\<close>, which has no
  \<^verbatim>\<open>key_type\<close>: it does not compile and is left out.

  \<^verbatim>\<open>buildRightMap\<close>: \<^verbatim>\<open>right_map[kv.key].push_back(kv.value)\<close> over the whole right
  stream, in the constructor.
\<close>

partial_function (option) buildRightMap ::
  "('r \<Rightarrow> 'k) \<Rightarrow> ('r \<Rightarrow> 'r) \<Rightarrow> ('s, 'r) Iterator \<Rightarrow> 's \<Rightarrow> ('k \<rightharpoonup> 'r list)
     \<Rightarrow> ('k \<rightharpoonup> 'r list) result option" where
  "buildRightMap key_r value_r R s right_map =
     (if \<not> getIsEnd R s then
        (case deref R s of
           Inl e \<Rightarrow> Some (Inl e)
         | Inr (kv, s1) \<Rightarrow>
             (case incr R s1 of
                None \<Rightarrow> None
              | Some (Inl e) \<Rightarrow> Some (Inl e)
              | Some (Inr s2) \<Rightarrow>
                  buildRightMap key_r value_r R s2
                    (right_map(key_r kv \<mapsto> at_key right_map [] (key_r kv) @ [value_r kv]))))
      else Some (Inr right_map))"

record ('s, 'r) JoinedIterator =
  left_it :: 's
  current_rights :: "'r list"
  current_right_index :: nat

text \<open>
  \<^verbatim>\<open>advanceToNextValid\<close> is a \<^verbatim>\<open>while\<close> whose body returns on both paths, so it
  runs at most once.
\<close>

definition advanceToNextValid ::
  "('l \<Rightarrow> 'k) \<Rightarrow> ('k \<rightharpoonup> 'r list) \<Rightarrow> ('s, 'l) Iterator \<Rightarrow> ('s, 'r) JoinedIterator
     \<Rightarrow> ('s, 'r) JoinedIterator result" where
  "advanceToNextValid key_l right_map L st =
     (if \<not> getIsEnd L (left_it st) then
        (case deref L (left_it st) of
           Inl e \<Rightarrow> Inl e
         | Inr (l, s1) \<Rightarrow>
             (case right_map (key_l l) of
                Some rights \<Rightarrow> Inr (st\<lparr>left_it := s1, current_rights := rights\<rparr>)
              | None \<Rightarrow> Inr (st\<lparr>left_it := s1, current_rights := []\<rparr>)))
      else Inr st)"

definition JoinedIterator_deref ::
  "('s, 'l) Iterator \<Rightarrow> ('s, 'r) JoinedIterator
     \<Rightarrow> (('l, 'r) JoinResult \<times> ('s, 'r) JoinedIterator) result" where
  "JoinedIterator_deref L st =
     (if current_rights st = [] then
        (case deref L (left_it st) of
           Inl e \<Rightarrow> Inl e
         | Inr (l, s1) \<Rightarrow> Inr (\<lparr>left_value = l, right_value = None\<rparr>, st\<lparr>left_it := s1\<rparr>))
      else
        (case deref L (left_it st) of
           Inl e \<Rightarrow> Inl e
         | Inr (l, s1) \<Rightarrow>
             if current_right_index st < length (current_rights st) then
               Inr (\<lparr>left_value = l,
                     right_value = Some (current_rights st ! current_right_index st)\<rparr>,
                    st\<lparr>left_it := s1\<rparr>)
             else Inl UndefinedBehaviour))"

definition JoinedIterator_incr ::
  "('l \<Rightarrow> 'k) \<Rightarrow> ('k \<rightharpoonup> 'r list) \<Rightarrow> ('s, 'l) Iterator \<Rightarrow> ('s, 'r) JoinedIterator
     \<Rightarrow> ('s, 'r) JoinedIterator result option" where
  "JoinedIterator_incr key_l right_map L st =
     (let st1 = (if current_rights st \<noteq> []
                 then st\<lparr>current_right_index := current_right_index st + 1\<rparr> else st)
      in if current_rights st \<noteq> [] \<and> current_right_index st1 < length (current_rights st)
         then Some (Inr st1)
         else
           (case incr L (left_it st1) of
              None \<Rightarrow> None
            | Some (Inl e) \<Rightarrow> Some (Inl e)
            | Some (Inr s1) \<Rightarrow>
                Some (advanceToNextValid key_l right_map L
                        (st1\<lparr>left_it := s1, current_right_index := 0\<rparr>))))"

text \<open>
  The end cursor is built over \<^verbatim>\<open>left_stream->end()\<close> and has
  \<^verbatim>\<open>current_right_index = 0\<close>.
\<close>

definition JoinedIterator ::
  "('l \<Rightarrow> 'k) \<Rightarrow> ('k \<rightharpoonup> 'r list) \<Rightarrow> ('s, 'l) Iterator
     \<Rightarrow> (('s, 'r) JoinedIterator, ('l, 'r) JoinResult) Iterator" where
  "JoinedIterator key_l right_map L =
     \<lparr>deref = JoinedIterator_deref L,
      incr = JoinedIterator_incr key_l right_map L,
      getIsEnd = (\<lambda>st. getIsEnd L (left_it st)),
      neq_end = (\<lambda>st. neq_end L (left_it st) \<or> current_right_index st \<noteq> 0)\<rparr>"

definition JoinedDataStream ::
  "('l \<Rightarrow> 'k) \<Rightarrow> ('r \<Rightarrow> 'k) \<Rightarrow> ('r \<Rightarrow> 'r) \<Rightarrow> ('sl, 'l) DataStream \<Rightarrow> ('sr, 'r) DataStream
     \<Rightarrow> (('sl, 'r) JoinedIterator, ('l, 'r) JoinResult) DataStream result option" where
  "JoinedDataStream key_l key_r value_r left right =
     (case begin_ptr right of
        None \<Rightarrow> None
      | Some (Inl e) \<Rightarrow> Some (Inl e)
      | Some (Inr sr) \<Rightarrow>
          (case buildRightMap key_r value_r (cursor right) sr Map.empty of
             None \<Rightarrow> None
           | Some (Inl e) \<Rightarrow> Some (Inl e)
           | Some (Inr right_map) \<Rightarrow>
               Some (Inr
                 \<lparr>cursor = JoinedIterator key_l right_map (cursor left),
                  begin_ptr =
                    (case begin_ptr left of
                       None \<Rightarrow> None
                     | Some (Inl e) \<Rightarrow> Some (Inl e)
                     | Some (Inr sl) \<Rightarrow>
                         Some (advanceToNextValid key_l right_map (cursor left)
                                 \<lparr>left_it = sl, current_rights = [],
                                  current_right_index = 0\<rparr>))\<rparr>)))"

subsection \<open>\<^verbatim>\<open>Join(right, lkey, rkey)\<close>\<close>

text \<open>
  The key-function join fills a \<^verbatim>\<open>std::unordered_multimap\<close> with \<^verbatim>\<open>emplace\<close> and
  reads it with \<^verbatim>\<open>equal_range\<close>.  The container keeps the elements of one key
  adjacent; \<open>m k\<close> is that run, in the order \<^verbatim>\<open>equal_range\<close> walks it.  Where in the
  run \<^verbatim>\<open>emplace\<close> puts a new element is not fixed by the C++ standard, so it is
  the parameter \<open>place\<close>: the position for the new element, given the run.
  Libraries differ: the new node is linked in front of its equivalents
  (\<open>place_front\<close>; GNU libstdc++ with integer keys) or behind them (\<open>place_back\<close>;
  LLVM libc++).
\<close>

definition emplace ::
  "('r list \<Rightarrow> nat) \<Rightarrow> ('k \<Rightarrow> 'r list) \<Rightarrow> 'k \<Rightarrow> 'r \<Rightarrow> ('k \<Rightarrow> 'r list)" where
  "emplace place m k v =
     m(k := take (place (m k)) (m k) @ [v] @ drop (place (m k)) (m k))"

definition place_front :: "'r list \<Rightarrow> nat" where
  "place_front run = 0"

definition place_back :: "'r list \<Rightarrow> nat" where
  "place_back run = length run"

partial_function (option) Join_right_loop ::
  "('r list \<Rightarrow> nat) \<Rightarrow> ('r \<Rightarrow> 'k) \<Rightarrow> ('s, 'r) Iterator \<Rightarrow> 's \<Rightarrow> ('k \<Rightarrow> 'r list)
     \<Rightarrow> ('k \<Rightarrow> 'r list) result option" where
  "Join_right_loop place rkey R rit right_map =
     (if neq_end R rit then
        (case deref R rit of
           Inl e \<Rightarrow> Some (Inl e)
         | Inr (val, s1) \<Rightarrow>
             (case incr R s1 of
                None \<Rightarrow> None
              | Some (Inl e) \<Rightarrow> Some (Inl e)
              | Some (Inr s2) \<Rightarrow>
                  Join_right_loop place rkey R s2 (emplace place right_map (rkey val) val)))
      else Some (Inr right_map))"

partial_function (option) Join_left_loop ::
  "('l \<Rightarrow> 'k) \<Rightarrow> ('k \<Rightarrow> 'r list) \<Rightarrow> ('s, 'l) Iterator \<Rightarrow> 's \<Rightarrow> ('l, 'r) JoinResult list
     \<Rightarrow> ('l, 'r) JoinResult list result option" where
  "Join_left_loop lkey right_map L lit result =
     (if neq_end L lit then
        (case deref L lit of
           Inl e \<Rightarrow> Some (Inl e)
         | Inr (lval, s1) \<Rightarrow>
             (let range = right_map (lkey lval);
                  result1 =
                    (if range = [] then result @ [\<lparr>left_value = lval, right_value = None\<rparr>]
                     else result @ map (\<lambda>r. \<lparr>left_value = lval, right_value = Some r\<rparr>) range)
              in case incr L s1 of
                   None \<Rightarrow> None
                 | Some (Inl e) \<Rightarrow> Some (Inl e)
                 | Some (Inr s2) \<Rightarrow> Join_left_loop lkey right_map L s2 result1))
      else Some (Inr result))"

text \<open>
  The stage returns the \<^verbatim>\<open>VectorDataStream<JoinResult<L, R>>\<close> it has filled
  with \<^verbatim>\<open>add\<close>.
\<close>

definition Join ::
  "('r list \<Rightarrow> nat) \<Rightarrow> ('sr, 'r) DataStream \<Rightarrow> ('l \<Rightarrow> 'k) \<Rightarrow> ('r \<Rightarrow> 'k) \<Rightarrow> ('sl, 'l) DataStream
     \<Rightarrow> (('l, 'r) JoinResult VectorIterator, ('l, 'r) JoinResult) DataStream result option" where
  "Join place right lkey rkey left =
     (case begin_ptr right of
        None \<Rightarrow> None
      | Some (Inl e) \<Rightarrow> Some (Inl e)
      | Some (Inr rit) \<Rightarrow>
          (case Join_right_loop place rkey (cursor right) rit (\<lambda>k. []) of
             None \<Rightarrow> None
           | Some (Inl e) \<Rightarrow> Some (Inl e)
           | Some (Inr right_map) \<Rightarrow>
               (case begin_ptr left of
                  None \<Rightarrow> None
                | Some (Inl e) \<Rightarrow> Some (Inl e)
                | Some (Inr lit) \<Rightarrow>
                    (case Join_left_loop lkey right_map (cursor left) lit [] of
                       None \<Rightarrow> None
                     | Some (Inl e) \<Rightarrow> Some (Inl e)
                     | Some (Inr result) \<Rightarrow> Some (Inr (VectorDataStream result))))))"

section \<open>What the specification asks\<close>

text \<open>
  \<open>collect (transform f (source xs))\<close>: \<open>f\<close> is applied to the elements one at a
  time in stream order, each call seeing the store the call before it left.
\<close>

fun map_with_store :: "('w \<Rightarrow> 'a \<Rightarrow> 'a \<times> 'w) \<Rightarrow> 'w \<Rightarrow> 'a list \<Rightarrow> 'a list \<times> 'w" where
  "map_with_store f w [] = ([], w)"
| "map_with_store f w (x # xs) =
     (case f w x of (y, w1) \<Rightarrow>
        (case map_with_store f w1 xs of (ys, w2) \<Rightarrow> (y # ys, w2)))"

text \<open>A closure that also counts its calls.\<close>

definition counting :: "('w \<Rightarrow> 'a \<Rightarrow> 'a \<times> 'w) \<Rightarrow> 'w \<times> nat \<Rightarrow> 'a \<Rightarrow> 'a \<times> ('w \<times> nat)" where
  "counting f = (\<lambda>(w, n) x. case f w x of (y, w1) \<Rightarrow> (y, (w1, Suc n)))"

text \<open>
  The tokens of one text element: the maximal non-empty runs of characters that
  are no delimiters.  \<open>cur\<close> is the run in progress.
\<close>

fun tokens_from :: "char set \<Rightarrow> string \<Rightarrow> string \<Rightarrow> string list" where
  "tokens_from D cur [] = (if cur = [] then [] else [cur])"
| "tokens_from D cur (c # cs) =
     (if c \<in> D then (if cur = [] then tokens_from D [] cs else cur # tokens_from D [] cs)
      else tokens_from D (cur @ [c]) cs)"

definition tokens :: "char set \<Rightarrow> string \<Rightarrow> string list" where
  "tokens D line = tokens_from D [] line"

text \<open>
  What a split cursor has still to deliver when it stands at position \<open>pos\<close> of
  the first of the upstream elements \<open>ys\<close>, no token in progress.
\<close>

fun pending_tokens :: "char set \<Rightarrow> nat \<Rightarrow> string list \<Rightarrow> string list" where
  "pending_tokens D pos [] = []"
| "pending_tokens D pos (y # ys) = tokens D (drop pos y) @ concat (map (tokens D) ys)"

text \<open>The keys of a list in the order in which each first occurs.\<close>

fun first_occurrences :: "'k list \<Rightarrow> 'k list" where
  "first_occurrences [] = []"
| "first_occurrences (k # ks) = k # removeAll k (first_occurrences ks)"

text \<open>The rows of a left-outer join for one left element, given its matches.\<close>

definition join_rows :: "'l \<Rightarrow> 'r list \<Rightarrow> ('l, 'r) JoinResult list" where
  "join_rows l matches =
     (if matches = [] then [\<lparr>left_value = l, right_value = None\<rparr>]
      else map (\<lambda>r. \<lparr>left_value = l, right_value = Some r\<rparr>) matches)"

section \<open>Cursors that honour the protocol\<close>

lemma VectorIterator_sel [simp]:
  "deref VectorIterator = VectorIterator_deref"
  "incr VectorIterator = VectorIterator_incr"
  "getIsEnd VectorIterator = v_is_end"
  "neq_end VectorIterator s = (\<not> v_is_end s)"
  by (simp_all add: VectorIterator_def VectorIterator_neq_def VectorIterator_end_def)

lemma size_t_incr_small: "i < SIZE_MAX \<Longrightarrow> size_t_incr i = Suc i"
  by (simp add: size_t_incr_def)

lemma VectorIterator_yields_from:
  "length xs \<le> SIZE_MAX \<Longrightarrow> i < length xs \<Longrightarrow>
     yields VectorIterator \<lparr>v_data = Some xs, v_index = i, v_is_end = False\<rparr> (drop i xs)"
proof (induction "length xs - i" arbitrary: i)
  case 0
  then show ?case by simp
next
  case (Suc n)
  let ?s = "\<lparr>v_data = Some xs, v_index = i, v_is_end = False\<rparr>"
  have d: "drop i xs = xs ! i # drop (Suc i) xs"
    using Suc.prems by (simp add: Cons_nth_drop_Suc)
  have rd: "deref VectorIterator ?s = Inr (xs ! i, ?s)"
    using Suc.prems by (simp add: VectorIterator_deref_def)
  have w: "size_t_incr i = Suc i"
    using Suc.prems by (intro size_t_incr_small) simp
  show ?case
  proof (cases "Suc i < length xs")
    case True
    have nx: "incr VectorIterator ?s
                = Some (Inr \<lparr>v_data = Some xs, v_index = Suc i, v_is_end = False\<rparr>)"
      using True by (simp add: VectorIterator_incr_def w)
    have "yields VectorIterator \<lparr>v_data = Some xs, v_index = Suc i, v_is_end = False\<rparr>
            (drop (Suc i) xs)"
      using Suc.hyps Suc.prems True by (intro Suc.hyps(1)) auto
    then show ?thesis
      unfolding d using rd nx by (intro yields_next) simp_all
  next
    case False
    have nx: "incr VectorIterator ?s
                = Some (Inr \<lparr>v_data = Some xs, v_index = Suc i, v_is_end = True\<rparr>)"
      using False by (simp add: VectorIterator_incr_def w)
    have "yields VectorIterator \<lparr>v_data = Some xs, v_index = Suc i, v_is_end = True\<rparr> []"
      by (intro yields_end) simp_all
    moreover have "drop (Suc i) xs = []" using False by simp
    ultimately show ?thesis
      unfolding d using rd nx by (intro yields_next) simp_all
  qed
qed

lemma AsDataFlow_yields:
  "xs \<noteq> [] \<Longrightarrow> length xs \<le> SIZE_MAX \<Longrightarrow> stream_yields (AsDataFlow xs) xs"
  using VectorIterator_yields_from [of xs 0]
  by (simp add: stream_yields_def AsDataFlow_def VectorDataStream_def VectorIterator_begin_def)

lemma AsVector_loop_yields:
  "yields It s xs \<Longrightarrow> \<exists>s'. AsVector_loop It s acc = Some (Inr (acc @ xs, s')) \<and> getIsEnd It s'"
proof (induction arbitrary: acc rule: yields.induct)
  case (yields_end s)
  then show ?case by (subst AsVector_loop.simps) simp
next
  case (yields_next s x s' xs)
  from yields_next.IH [of "acc @ [x]"] obtain s'' where
    "AsVector_loop It s' (acc @ [x]) = Some (Inr ((acc @ [x]) @ xs, s''))" "getIsEnd It s''"
    by blast
  then show ?case
    using yields_next.hyps by (subst AsVector_loop.simps) simp
qed

lemma AsVector_yields:
  "stream_yields S xs \<Longrightarrow> AsVector S = Some (Inr xs)"
proof -
  assume a: "stream_yields S xs"
  then obtain s where s: "begin_ptr S = Some (Inr s)" "yields (cursor S) s xs"
    by (auto simp: stream_yields_def split: option.splits sum.splits)
  from AsVector_loop_yields [OF s(2), of "[]"] obtain s' where
    "AsVector_loop (cursor S) s [] = Some (Inr (xs, s'))" by auto
  then show ?thesis using s(1) by (simp add: AsVector_def AsVector_run_def)
qed

lemma TransformedIterator_sel [simp]:
  "deref (TransformedIterator f up) = TransformedIterator_deref f up"
  "incr (TransformedIterator f up) = TransformedIterator_incr up"
  "getIsEnd (TransformedIterator f up) st = getIsEnd up (t_it st)"
  "neq_end (TransformedIterator f up) st = neq_end up (t_it st)"
  by (simp_all add: TransformedIterator_def)

lemma transform_loop_from:
  "length xs \<le> SIZE_MAX \<Longrightarrow> i < length xs \<Longrightarrow>
   AsVector_loop (TransformedIterator f VectorIterator)
      \<lparr>t_it = \<lparr>v_data = Some xs, v_index = i, v_is_end = False\<rparr>, t_store = w\<rparr> acc
   = Some (Inr (acc @ fst (map_with_store f w (drop i xs)),
               \<lparr>t_it = \<lparr>v_data = Some xs, v_index = length xs, v_is_end = True\<rparr>,
                t_store = snd (map_with_store f w (drop i xs))\<rparr>))"
proof (induction "length xs - i" arbitrary: i w acc)
  case 0
  then show ?case by simp
next
  case (Suc n)
  obtain y w1 where f: "f w (xs ! i) = (y, w1)" by (cases "f w (xs ! i)")
  have d: "drop i xs = xs ! i # drop (Suc i) xs"
    using Suc.prems by (simp add: Cons_nth_drop_Suc)
  show ?case
  proof (cases "Suc i < length xs")
    case True
    have "n = length xs - Suc i" using Suc.hyps(2) by simp
    from Suc.hyps(1) [OF this Suc.prems(1) True, of w1 "acc @ [y]"] show ?thesis
      using Suc.prems True f
      by (subst AsVector_loop.simps)
         (simp add: d TransformedIterator_deref_def TransformedIterator_incr_def
            VectorIterator_deref_def VectorIterator_incr_def size_t_incr_small
            split: prod.splits)
  next
    case False
    then have e: "drop (Suc i) xs = []" "Suc i = length xs" using Suc.prems by simp_all
    have stop: "AsVector_loop (TransformedIterator f VectorIterator)
        \<lparr>t_it = \<lparr>v_data = Some xs, v_index = length xs, v_is_end = True\<rparr>, t_store = w1\<rparr> (acc @ [y])
      = Some (Inr (acc @ [y], \<lparr>t_it = \<lparr>v_data = Some xs, v_index = length xs, v_is_end = True\<rparr>, t_store = w1\<rparr>))"
      by (subst AsVector_loop.simps) simp
    show ?thesis
      using Suc.prems False f stop e
      by (subst AsVector_loop.simps)
         (simp add: d TransformedIterator_deref_def TransformedIterator_incr_def
            VectorIterator_deref_def VectorIterator_incr_def size_t_incr_small
            split: prod.splits)
  qed
qed

lemma transform_collect_nonempty:
  "xs \<noteq> [] \<Longrightarrow> length xs \<le> SIZE_MAX \<Longrightarrow>
   AsVector_run (Transform f w (AsDataFlow xs))
   = Some (Inr (fst (map_with_store f w xs),
               \<lparr>t_it = \<lparr>v_data = Some xs, v_index = length xs, v_is_end = True\<rparr>,
                t_store = snd (map_with_store f w xs)\<rparr>))"
  using transform_loop_from [of xs 0 f w "[]"]
  by (simp add: AsVector_run_def Transform_def AsDataFlow_def VectorDataStream_def VectorIterator_begin_def)

lemma map_with_store_Cons:
  "map_with_store f w (x # xs) =
     (fst (f w x) # fst (map_with_store f (snd (f w x)) xs),
      snd (map_with_store f (snd (f w x)) xs))"
  by (simp split: prod.splits)

lemma map_with_store_pure:
  "map_with_store (\<lambda>w x. (g x, w)) w xs = (map g xs, w)"
  by (induction xs) auto

lemma map_with_store_length: "length (fst (map_with_store f w xs)) = length xs"
  by (induction xs arbitrary: w) (simp_all add: map_with_store_Cons del: map_with_store.simps(2))

lemma counting_apply:
  "counting f (w, n) x = (fst (f w x), (snd (f w x), Suc n))"
  by (simp add: counting_def split: prod.splits)

lemma map_with_store_counting:
  "map_with_store (counting f) (w, n) xs
     = (fst (map_with_store f w xs), (snd (map_with_store f w xs), n + length xs))"
  by (induction xs arbitrary: w n)
     (simp_all add: map_with_store_Cons counting_apply del: map_with_store.simps(2))

section \<open>The split adapter\<close>

lemma SplitIterator_sel [simp]:
  "deref (SplitIterator D up) st = Inr (sp_current_line st, st)"
  "incr (SplitIterator D up) = skipToNext D up"
  "getIsEnd (SplitIterator D up) st = (getIsEnd up (sp_it st) \<and> sp_current_line st = [])"
  "neq_end (SplitIterator D up) st = (neq_end up (sp_it st) \<or> sp_current_line st \<noteq> [])"
  by (simp_all add: SplitIterator_def)

lemma scan_line_tokens:
  "scan_line D line pos cur = (ret, pos', cur') \<Longrightarrow>
     (ret \<longrightarrow> pos < pos' \<and> pos' \<le> length line \<and> cur' \<noteq> []
             \<and> tokens_from D cur (drop pos line) = cur' # tokens_from D [] (drop pos' line))
   \<and> (\<not> ret \<longrightarrow> tokens_from D cur (drop pos line) = (if cur' = [] then [] else [cur']))"
proof (induction D line pos cur arbitrary: ret pos' cur' rule: scan_line.induct)
  case (1 D line pos cur)
  show ?case
  proof (cases "pos < length line")
    case False
    then show ?thesis using "1.prems" by (subst (asm) scan_line.simps) auto
  next
    case True
    then have d: "drop pos line = line ! pos # drop (Suc pos) line"
      by (simp add: Cons_nth_drop_Suc)
    show ?thesis
    proof (cases "line ! pos \<in> D")
      case inD: True
      show ?thesis
      proof (cases "cur = []")
        case True
        have "scan_line D line (pos + 1) cur = (ret, pos', cur')"
          using "1.prems" True inD \<open>pos < length line\<close> by (subst (asm) scan_line.simps) simp
        from "1.IH"(1) [OF \<open>pos < length line\<close> inD _ this] True
        show ?thesis using inD by (auto simp: d)
      next
        case False
        then have "ret" "pos' = pos + 1" "cur' = cur"
          using "1.prems" inD \<open>pos < length line\<close> by (subst (asm) scan_line.simps, simp)+
        then show ?thesis using inD False \<open>pos < length line\<close> by (simp add: d)
      qed
    next
      case notD: False
      have "scan_line D line (pos + 1) (cur @ [line ! pos]) = (ret, pos', cur')"
        using "1.prems" notD \<open>pos < length line\<close> by (subst (asm) scan_line.simps) simp
      from "1.IH"(2) [OF \<open>pos < length line\<close> notD this]
      show ?thesis using notD by (auto simp: d)
    qed
  qed
qed

lemma pending_tokens_0: "pending_tokens D 0 ys = concat (map (tokens D) ys)"
  by (cases ys) simp_all

lemma skipToNext_loop_yields:
  assumes "yields up s ys"
  shows "\<exists>st'. skipToNext_loop D up \<lparr>sp_it = s, sp_current_line = [], pos_in_line = pos\<rparr>
                  = Some (Inr st')
               \<and> yields (SplitIterator D up) st' (pending_tokens D pos ys)"
  using assms
proof (induction arbitrary: pos rule: yields.induct)
  case (yields_end s)
  have "skipToNext_loop D up \<lparr>sp_it = s, sp_current_line = [], pos_in_line = pos\<rparr>
          = Some (Inr \<lparr>sp_it = s, sp_current_line = [], pos_in_line = pos\<rparr>)"
    using yields_end by (subst skipToNext_loop.simps) simp
  moreover have "yields (SplitIterator D up)
                   \<lparr>sp_it = s, sp_current_line = [], pos_in_line = pos\<rparr> []"
    using yields_end by (intro yields.yields_end) simp_all
  ultimately show ?case by simp
next
  case (yields_next s x s' xs)
  from yields_next.IH [of 0] obtain st3 where
    st3: "skipToNext_loop D up \<lparr>sp_it = s', sp_current_line = [], pos_in_line = 0\<rparr>
            = Some (Inr st3)"
         "yields (SplitIterator D up) st3 (concat (map (tokens D) xs))"
    by (auto simp: pending_tokens_0)
  show ?case
  proof (induction "length x - pos" arbitrary: pos rule: less_induct)
    case less
    obtain ret p c where sc: "scan_line D x pos [] = (ret, p, c)"
      by (cases "scan_line D x pos []") auto
    note facts = scan_line_tokens [OF sc]
    show ?case
    proof (cases ret)
      case True
      with facts have f: "pos < p" "p \<le> length x" "c \<noteq> []"
        "tokens_from D [] (drop pos x) = c # tokens_from D [] (drop p x)" by auto
      have run: "skipToNext_loop D up \<lparr>sp_it = s, sp_current_line = [], pos_in_line = pos\<rparr>
                   = Some (Inr \<lparr>sp_it = s, sp_current_line = c, pos_in_line = p\<rparr>)"
        using yields_next.hyps sc True by (subst skipToNext_loop.simps) simp
      have "length x - p < length x - pos" using f by arith
      from less [OF this] obtain st2 where
        st2: "skipToNext_loop D up \<lparr>sp_it = s, sp_current_line = [], pos_in_line = p\<rparr>
                = Some (Inr st2)"
             "yields (SplitIterator D up) st2 (pending_tokens D p (x # xs))"
        by blast
      have "yields (SplitIterator D up) \<lparr>sp_it = s, sp_current_line = c, pos_in_line = p\<rparr>
              (c # pending_tokens D p (x # xs))"
        using yields_next.hyps f st2
        by (intro yields.yields_next [where s' = st2]) (simp_all add: skipToNext_def)
      moreover have "pending_tokens D pos (x # xs) = c # pending_tokens D p (x # xs)"
        using f by (simp add: tokens_def)
      ultimately show ?thesis using run by simp
    next
      case False
      with facts have t: "tokens_from D [] (drop pos x) = (if c = [] then [] else [c])"
        by simp
      show ?thesis
      proof (cases "c = []")
        case True
        have "skipToNext_loop D up \<lparr>sp_it = s, sp_current_line = [], pos_in_line = pos\<rparr>
                = Some (Inr st3)"
          using yields_next.hyps sc False True st3(1) by (subst skipToNext_loop.simps) simp
        moreover have "pending_tokens D pos (x # xs) = concat (map (tokens D) xs)"
          using t True by (simp add: tokens_def)
        ultimately show ?thesis using st3(2) by simp
      next
        case nonempty: False
        have run: "skipToNext_loop D up \<lparr>sp_it = s, sp_current_line = [], pos_in_line = pos\<rparr>
                = Some (Inr \<lparr>sp_it = s', sp_current_line = c, pos_in_line = 0\<rparr>)"
          using yields_next.hyps sc False nonempty by (subst skipToNext_loop.simps) simp
        have "yields (SplitIterator D up) \<lparr>sp_it = s', sp_current_line = c, pos_in_line = 0\<rparr>
                (c # concat (map (tokens D) xs))"
          using nonempty st3
          by (intro yields.yields_next [where s' = st3]) (simp_all add: skipToNext_def)
        moreover have "pending_tokens D pos (x # xs) = c # concat (map (tokens D) xs)"
          using t nonempty by (simp add: tokens_def)
        ultimately show ?thesis using run by simp
      qed
    qed
  qed
qed

lemma Split_yields:
  assumes "stream_yields S xs"
  shows "stream_yields (Split ds S) (concat (map (tokens (set ds)) xs))"
proof -
  from assms obtain s where s: "begin_ptr S = Some (Inr s)" "yields (cursor S) s xs"
    by (auto simp: stream_yields_def split: option.splits sum.splits)
  from skipToNext_loop_yields [OF s(2), of "set ds" 0] obtain st' where
    "skipToNext_loop (set ds) (cursor S) \<lparr>sp_it = s, sp_current_line = [], pos_in_line = 0\<rparr>
       = Some (Inr st')"
    "yields (SplitIterator (set ds) (cursor S)) st' (concat (map (tokens (set ds)) xs))"
    by (auto simp: pending_tokens_0)
  then show ?thesis
    using s(1) by (simp add: stream_yields_def Split_def skipToNext_def)
qed

lemma tokens_from_sound:
  "set cur \<inter> D = {} \<Longrightarrow> \<forall>t \<in> set (tokens_from D cur line). t \<noteq> [] \<and> set t \<inter> D = {}"
proof (induction D cur line rule: tokens_from.induct)
  case (1 D cur)
  then show ?case by simp
next
  case (2 D cur c cs)
  show ?case
  proof (cases "c \<in> D")
    case True
    then show ?thesis using 2 by (cases "cur = []") simp_all
  next
    case False
    then have "set (cur @ [c]) \<inter> D = {}" using "2.prems" by auto
    from "2.IH"(3) [OF False this] show ?thesis using False by simp
  qed
qed

lemma tokens_sound: "t \<in> set (tokens D line) \<Longrightarrow> t \<noteq> [] \<and> set t \<inter> D = {}"
  using tokens_from_sound [of "[]" D line] by (simp add: tokens_def)

lemma tokens_from_concat:
  "concat (tokens_from D cur line) = cur @ filter (\<lambda>c. c \<notin> D) line"
  by (induction line arbitrary: cur) auto

lemma tokens_concat: "concat (tokens D line) = filter (\<lambda>c. c \<notin> D) line"
  by (simp add: tokens_def tokens_from_concat)

section \<open>Aggregation by key\<close>

lemma set_first_occurrences [simp]: "set (first_occurrences ks) = set ks"
  by (induction ks) auto

lemma distinct_first_occurrences [simp]: "distinct (first_occurrences ks)"
  by (induction ks) (auto simp: distinct_removeAll)

lemma length_first_occurrences: "length (first_occurrences ks) \<le> length ks"
proof (induction ks)
  case Nil
  then show ?case by simp
next
  case (Cons k ks)
  have "length (removeAll k (first_occurrences ks)) \<le> length (first_occurrences ks)"
    unfolding removeAll_filter_not_eq by (rule length_filter_le)
  then have "length (removeAll k (first_occurrences ks)) \<le> length ks"
    using Cons by linarith
  then show ?case by simp
qed

lemma first_occurrences_snoc:
  "first_occurrences (ks @ [k])
     = (if k \<in> set ks then first_occurrences ks else first_occurrences ks @ [k])"
  by (induction ks) auto

lemma remdups_snoc: "remdups (xs @ [k]) = filter (\<lambda>x. x \<noteq> k) (remdups xs) @ [k]"
  by (induction xs) auto

lemma first_occurrences_remdups: "first_occurrences ks = rev (remdups (rev ks))"
proof (induction ks)
  case Nil
  then show ?case by simp
next
  case (Cons k ks)
  have "rev (remdups (rev (k # ks))) = k # filter (\<lambda>x. x \<noteq> k) (rev (remdups (rev ks)))"
    by (simp add: remdups_snoc rev_filter)
  also have "filter (\<lambda>x. x \<noteq> k) (rev (remdups (rev ks))) = removeAll k (first_occurrences ks)"
    unfolding Cons removeAll_filter_not_eq by (rule filter_cong) auto
  finally show ?case by simp
qed

lemma AggregateByKey_Iterator_sel [simp]:
  "deref (AggregateByKey_Iterator R) i
     = (if i < length R then Inr (R ! i, i) else Inl UndefinedBehaviour)"
  "incr (AggregateByKey_Iterator R) i = Some (Inr (size_t_incr i))"
  "getIsEnd (AggregateByKey_Iterator R) i = (i \<ge> length R)"
  "neq_end (AggregateByKey_Iterator R) i = (i \<noteq> length R)"
  by (simp_all add: AggregateByKey_Iterator_def)

lemma AggregateByKey_Iterator_yields:
  "length R \<le> SIZE_MAX \<Longrightarrow> i \<le> length R \<Longrightarrow>
     yields (AggregateByKey_Iterator R) i (drop i R)"
proof (induction "length R - i" arbitrary: i)
  case 0
  then show ?case by (intro yields_end | simp)+
next
  case (Suc n)
  then have lt: "i < length R" by simp
  then have d: "drop i R = R ! i # drop (Suc i) R" by (simp add: Cons_nth_drop_Suc)
  have "yields (AggregateByKey_Iterator R) (Suc i) (drop (Suc i) R)"
    using Suc lt by (intro Suc.hyps(1)) simp_all
  then show ?case
    unfolding d using lt Suc.prems
    by (intro yields_next [where s' = "Suc i"]) (simp_all add: size_t_incr_small)
qed

lemma aggregate_loop_yields:
  assumes "yields up s xs"
    and "ko = first_occurrences (map key_func pre)"
    and "\<And>k. m k = (if k \<in> key_func ` set pre
                     then Some (fold acc (filter (\<lambda>x. key_func x = k) pre) init) else None)"
  shows "\<exists>m'. aggregate_loop init acc key_func dflt up s m ko
                 = Some (Inr (m', first_occurrences (map key_func (pre @ xs))))
             \<and> (\<forall>k. m' k = (if k \<in> key_func ` set (pre @ xs)
                             then Some (fold acc (filter (\<lambda>x. key_func x = k) (pre @ xs)) init)
                             else None))"
  using assms
proof (induction arbitrary: pre m ko rule: yields.induct)
  case (yields_end s)
  then show ?case by (subst aggregate_loop.simps) simp
next
  case (yields_next s x s' xs)
  let ?k = "key_func x"
  let ?m1 = "if m ?k = None then m(?k \<mapsto> init) else m"
  let ?ko1 = "if m ?k = None then ko @ [?k] else ko"
  let ?m2 = "?m1(?k \<mapsto> acc x (at_key ?m1 dflt ?k))"
  have none: "m ?k = None \<longleftrightarrow> ?k \<notin> key_func ` set pre"
    using yields_next.prems(2) [of ?k] by (simp split: if_splits)
  have ko1: "?ko1 = first_occurrences (map key_func (pre @ [x]))"
    using none yields_next.prems(1) by (auto simp: first_occurrences_snoc)
  have m2: "?m2 k = (if k \<in> key_func ` set (pre @ [x])
                     then Some (fold acc (filter (\<lambda>x. key_func x = k) (pre @ [x])) init)
                     else None)" for k
  proof (cases "k = ?k")
    case True
    show ?thesis
    proof (cases "m ?k")
      case None
      then have "\<forall>y \<in> set pre. key_func y \<noteq> ?k"
        using none by (metis image_eqI)
      then have "filter (\<lambda>y. key_func y = ?k) pre = []"
        by (simp add: filter_empty_conv)
      then show ?thesis using True None by (simp add: at_key_def)
    next
      case (Some a)
      then have "a = fold acc (filter (\<lambda>y. key_func y = ?k) pre) init"
        using yields_next.prems(2) [of ?k] by (simp split: if_splits)
      then show ?thesis using True Some by (simp add: at_key_def)
    qed
  next
    case False
    then show ?thesis using yields_next.prems(2) [of k] by auto
  qed
  from yields_next.IH [OF ko1 m2] obtain m' where
    m': "aggregate_loop init acc key_func dflt up s' ?m2 ?ko1
           = Some (Inr (m', first_occurrences (map key_func ((pre @ [x]) @ xs))))"
        "\<forall>k. m' k = (if k \<in> key_func ` set ((pre @ [x]) @ xs)
                       then Some (fold acc (filter (\<lambda>x. key_func x = k) ((pre @ [x]) @ xs)) init)
                       else None)"
    by blast
  have "aggregate_loop init acc key_func dflt up s m ko
          = aggregate_loop init acc key_func dflt up s' ?m2 ?ko1"
    using yields_next.hyps by (subst aggregate_loop.simps) (simp add: Let_def)
  with m' show ?case by simp
qed

lemma aggregate_results_yields:
  assumes "stream_yields S xs"
  shows "aggregate_results init acc key_func dflt S
           = Some (Inr (map (\<lambda>k. (k, fold acc (filter (\<lambda>x. key_func x = k) xs) init))
                          (first_occurrences (map key_func xs))))"
proof -
  from assms obtain s where s: "begin_ptr S = Some (Inr s)" "yields (cursor S) s xs"
    by (auto simp: stream_yields_def split: option.splits sum.splits)
  from aggregate_loop_yields [OF s(2), of "[]" key_func "[]" Map.empty acc init dflt]
  obtain m' where
    m': "aggregate_loop init acc key_func dflt (cursor S) s Map.empty []
           = Some (Inr (m', first_occurrences (map key_func xs)))"
        "\<forall>k. m' k = (if k \<in> key_func ` set xs
                       then Some (fold acc (filter (\<lambda>x. key_func x = k) xs) init) else None)"
    by auto
  have "map (\<lambda>k. (k, at_key m' dflt k)) (first_occurrences (map key_func xs))
          = map (\<lambda>k. (k, fold acc (filter (\<lambda>x. key_func x = k) xs) init))
              (first_occurrences (map key_func xs))"
    using m'(2) by (intro map_cong) (auto simp: at_key_def)
  then show ?thesis using s(1) m'(1) by (simp add: aggregate_results_def)
qed

lemma AggregateByKey_first_occurrence_order:
  assumes "stream_yields S xs" and "length xs \<le> SIZE_MAX"
  shows "\<exists>results.
           AggregateByKey init acc key_func dflt S
             = Some (Inr \<lparr>cursor = AggregateByKey_Iterator results, begin_ptr = Some (Inr 0)\<rparr>)
         \<and> AsVector \<lparr>cursor = AggregateByKey_Iterator results, begin_ptr = Some (Inr 0)\<rparr>
             = Some (Inr results)
         \<and> map fst results = first_occurrences (map key_func xs)
         \<and> distinct (map fst results)
         \<and> set (map fst results) = key_func ` set xs
         \<and> map snd results
             = map (\<lambda>k. fold acc (filter (\<lambda>x. key_func x = k) xs) init)
                 (first_occurrences (map key_func xs))"
proof -
  let ?R = "map (\<lambda>k. (k, fold acc (filter (\<lambda>x. key_func x = k) xs) init))
              (first_occurrences (map key_func xs))"
  let ?S = "\<lparr>cursor = AggregateByKey_Iterator ?R, begin_ptr = Some (Inr (0::nat))\<rparr>"
  have a: "AggregateByKey init acc key_func dflt S = Some (Inr ?S)"
    using aggregate_results_yields [OF assms(1), of init acc key_func dflt]
    by (simp add: AggregateByKey_def)
  have "length ?R \<le> SIZE_MAX"
    using length_first_occurrences [of "map key_func xs"] assms(2) by simp
  from AggregateByKey_Iterator_yields [OF this, of 0]
  have "stream_yields ?S ?R" by (simp add: stream_yields_def)
  then have b: "AsVector ?S = Some (Inr ?R)" by (rule AsVector_yields)
  have c: "map fst ?R = first_occurrences (map key_func xs)" by (simp add: comp_def)
  have d: "map snd ?R = map (\<lambda>k. fold acc (filter (\<lambda>x. key_func x = k) xs) init)
                          (first_occurrences (map key_func xs))" by (simp add: comp_def)
  show ?thesis
    using a b c d
    by (intro exI [of _ ?R])
       (simp only: distinct_first_occurrences set_first_occurrences set_map simp_thms)
qed

lemma AggregateByKey_example:
  "\<exists>results.
      AggregateByKey 0 (\<lambda>x a. a + x) (\<lambda>x. x mod 2) 0 (AsDataFlow [3, 4, 5, 8, 1 :: nat])
        = Some (Inr \<lparr>cursor = AggregateByKey_Iterator results, begin_ptr = Some (Inr 0)\<rparr>)
    \<and> AsVector \<lparr>cursor = AggregateByKey_Iterator results, begin_ptr = Some (Inr 0)\<rparr>
        = Some (Inr results)
    \<and> results = [(1, 9), (0, 12)]"
proof -
  have y: "stream_yields (AsDataFlow [3, 4, 5, 8, 1 :: nat]) [3, 4, 5, 8, 1]"
    by (rule AsDataFlow_yields) (simp_all add: SIZE_MAX_def)
  have l: "length [3, 4, 5, 8, 1 :: nat] \<le> SIZE_MAX" by (simp add: SIZE_MAX_def)
  from AggregateByKey_first_occurrence_order [OF y l, of 0 "\<lambda>x a. a + x" "\<lambda>x. x mod 2" 0]
  obtain results where r:
    "AggregateByKey 0 (\<lambda>x a. a + x) (\<lambda>x. x mod 2) 0 (AsDataFlow [3, 4, 5, 8, 1 :: nat])
        = Some (Inr \<lparr>cursor = AggregateByKey_Iterator results, begin_ptr = Some (Inr 0)\<rparr>)"
    "AsVector \<lparr>cursor = AggregateByKey_Iterator results, begin_ptr = Some (Inr 0)\<rparr>
        = Some (Inr results)"
    "map fst results = first_occurrences (map (\<lambda>x. x mod 2) [3, 4, 5, 8, 1 :: nat])"
    "map snd results
       = map (\<lambda>k. fold (\<lambda>x a. a + x) (filter (\<lambda>x. x mod 2 = k) [3, 4, 5, 8, 1]) 0)
           (first_occurrences (map (\<lambda>x. x mod 2) [3, 4, 5, 8, 1 :: nat]))"
    by (elim exE conjE) (rule that)
  have "map fst results = [1, 0]" using r(3) by simp
  moreover have "map snd results = [9, 12]" using r(4) by simp
  ultimately have "results = [(1, 9), (0, 12)]"
    by (auto simp: map_eq_Cons_conv)
  with r(1,2) show ?thesis by (intro exI [of _ results]) simp
qed

section \<open>The joins\<close>

lemma JoinedIterator_sel [simp]:
  "deref (JoinedIterator kl rm L) = JoinedIterator_deref L"
  "incr (JoinedIterator kl rm L) = JoinedIterator_incr kl rm L"
  "getIsEnd (JoinedIterator kl rm L) st = getIsEnd L (left_it st)"
  "neq_end (JoinedIterator kl rm L) st = (neq_end L (left_it st) \<or> current_right_index st \<noteq> 0)"
  by (simp_all add: JoinedIterator_def)

lemma buildRightMap_yields:
  assumes "yields R s rs"
    and "\<And>k. m k = (if k \<in> kr ` set pre
                     then Some (map vr (filter (\<lambda>r. kr r = k) pre)) else None)"
  shows "\<exists>m'. buildRightMap kr vr R s m = Some (Inr m')
             \<and> (\<forall>k. m' k = (if k \<in> kr ` set (pre @ rs)
                             then Some (map vr (filter (\<lambda>r. kr r = k) (pre @ rs)))
                             else None))"
  using assms
proof (induction arbitrary: pre m rule: yields.induct)
  case (yields_end s)
  then show ?case by (subst buildRightMap.simps) simp
next
  case (yields_next s x s' xs)
  let ?m1 = "m(kr x \<mapsto> at_key m [] (kr x) @ [vr x])"
  have m1: "?m1 k = (if k \<in> kr ` set (pre @ [x])
                     then Some (map vr (filter (\<lambda>r. kr r = k) (pre @ [x])))
                     else None)" for k
  proof (cases "k = kr x")
    case True
    show ?thesis
    proof (cases "m (kr x)")
      case None
      then have "kr x \<notin> kr ` set pre"
        using yields_next.prems [of "kr x"] by (simp split: if_splits)
      then have "\<forall>y \<in> set pre. kr y \<noteq> kr x" by (metis image_eqI)
      then have "filter (\<lambda>r. kr r = kr x) pre = []" by (simp add: filter_empty_conv)
      then show ?thesis using True None by (simp add: at_key_def)
    next
      case (Some a)
      then have "a = map vr (filter (\<lambda>r. kr r = kr x) pre)"
        using yields_next.prems [of "kr x"] by (simp split: if_splits)
      then show ?thesis using True Some by (simp add: at_key_def)
    qed
  next
    case False
    then show ?thesis using yields_next.prems [of k] by auto
  qed
  from yields_next.IH [OF m1] obtain m' where
    "buildRightMap kr vr R s' ?m1 = Some (Inr m')"
    "\<forall>k. m' k = (if k \<in> kr ` set ((pre @ [x]) @ xs)
                   then Some (map vr (filter (\<lambda>r. kr r = k) ((pre @ [x]) @ xs)))
                   else None)"
    by blast
  moreover have "buildRightMap kr vr R s m = buildRightMap kr vr R s' ?m1"
    using yields_next.hyps by (subst buildRightMap.simps) simp
  ultimately show ?case by simp
qed

lemma join_rows_Nil: "join_rows l [] = [\<lparr>left_value = l, right_value = None\<rparr>]"
  by (simp add: join_rows_def)

lemma join_rows_nonempty:
  "ms \<noteq> [] \<Longrightarrow> join_rows l ms = map (\<lambda>r. \<lparr>left_value = l, right_value = Some r\<rparr>) ms"
  by (simp add: join_rows_def)

lemma advanceToNextValid_yields:
  assumes "yields L s ls"
  shows "\<exists>st. advanceToNextValid kl rm L
                 \<lparr>left_it = s, current_rights = cr, current_right_index = 0\<rparr> = Inr st
             \<and> yields (JoinedIterator kl rm L) st
                  (concat (map (\<lambda>l. join_rows l (at_key rm [] (kl l))) ls))"
  using assms
proof (induction arbitrary: cr rule: yields.induct)
  case (yields_end s)
  have "yields (JoinedIterator kl rm L)
          \<lparr>left_it = s, current_rights = cr, current_right_index = 0\<rparr> []"
    using yields_end by (intro yields.yields_end) simp_all
  then show ?case using yields_end by (simp add: advanceToNextValid_def)
next
  case (yields_next s l s' ls)
  let ?cr = "at_key rm [] (kl l)"
  let ?rest = "concat (map (\<lambda>l. join_rows l (at_key rm [] (kl l))) ls)"
  let ?J = "JoinedIterator kl rm L"
  have adv: "advanceToNextValid kl rm L \<lparr>left_it = s, current_rights = cr, current_right_index = 0\<rparr>
               = Inr \<lparr>left_it = s, current_rights = ?cr, current_right_index = 0\<rparr>"
    using yields_next.hyps by (simp add: advanceToNextValid_def at_key_def split: option.splits)
  have next_left: "\<exists>st. advanceToNextValid kl rm L
                 \<lparr>left_it = s', current_rights = c, current_right_index = 0\<rparr> = Inr st
             \<and> yields ?J st ?rest" for c
    using yields_next.IH [of c] .
  have rows: "yields ?J \<lparr>left_it = s, current_rights = ?cr, current_right_index = 0\<rparr>
                (join_rows l ?cr @ ?rest)"
  proof (cases "?cr = []")
    case True
    from next_left [of "[]"] obtain st where
      st: "advanceToNextValid kl rm L
             \<lparr>left_it = s', current_rights = [], current_right_index = 0\<rparr> = Inr st"
          "yields ?J st ?rest" by blast
    have "yields ?J \<lparr>left_it = s, current_rights = [], current_right_index = 0\<rparr>
            (\<lparr>left_value = l, right_value = None\<rparr> # ?rest)"
      using yields_next.hyps st
      by (intro yields.yields_next [where s' = st])
         (simp_all add: JoinedIterator_deref_def JoinedIterator_incr_def)
    then show ?thesis using True by (simp add: join_rows_Nil)
  next
    case False
    have part: "i < length ?cr \<Longrightarrow>
                  yields ?J \<lparr>left_it = s, current_rights = ?cr, current_right_index = i\<rparr>
                    (map (\<lambda>r. \<lparr>left_value = l, right_value = Some r\<rparr>) (drop i ?cr) @ ?rest)"
      for i
    proof (induction "length ?cr - i" arbitrary: i)
      case 0
      then show ?case by simp
    next
      case (Suc n)
      have d: "drop i ?cr = ?cr ! i # drop (Suc i) ?cr"
        using Suc.prems by (simp add: Cons_nth_drop_Suc)
      show ?case
      proof (cases "Suc i < length ?cr")
        case True
        have "yields ?J \<lparr>left_it = s, current_rights = ?cr, current_right_index = Suc i\<rparr>
                (map (\<lambda>r. \<lparr>left_value = l, right_value = Some r\<rparr>) (drop (Suc i) ?cr) @ ?rest)"
          using Suc.hyps True by (intro Suc.hyps(1)) simp_all
        then have "yields ?J \<lparr>left_it = s, current_rights = ?cr, current_right_index = i\<rparr>
                (\<lparr>left_value = l, right_value = Some (?cr ! i)\<rparr>
                 # (map (\<lambda>r. \<lparr>left_value = l, right_value = Some r\<rparr>) (drop (Suc i) ?cr) @ ?rest))"
          using yields_next.hyps Suc.prems True False
          by (intro yields.yields_next
                [where s' = "\<lparr>left_it = s, current_rights = ?cr, current_right_index = Suc i\<rparr>"])
             (simp_all add: JoinedIterator_deref_def JoinedIterator_incr_def)
        then show ?thesis by (simp add: d)
      next
        case last: False
        from next_left [of ?cr] obtain st where
          st: "advanceToNextValid kl rm L
                 \<lparr>left_it = s', current_rights = ?cr, current_right_index = 0\<rparr> = Inr st"
              "yields ?J st ?rest" by blast
        have e: "drop (Suc i) ?cr = []" using last by simp
        have "yields ?J \<lparr>left_it = s, current_rights = ?cr, current_right_index = i\<rparr>
                (\<lparr>left_value = l, right_value = Some (?cr ! i)\<rparr> # ?rest)"
          using yields_next.hyps Suc.prems last False st
          by (intro yields.yields_next [where s' = st])
             (simp_all add: JoinedIterator_deref_def JoinedIterator_incr_def)
        then show ?thesis by (simp add: d e)
      qed
    qed
    from part [of 0] False show ?thesis by (simp add: join_rows_nonempty)
  qed
  show ?case using adv rows by simp
qed

lemma JoinedDataStream_yields:
  assumes "stream_yields left ls" and "stream_yields right rs"
  shows "\<exists>J. JoinedDataStream kl kr vr left right = Some (Inr J)
            \<and> stream_yields J
                (concat (map (\<lambda>l. join_rows l
                                    (map vr (filter (\<lambda>r. kr r = kl l) rs))) ls))"
proof -
  from assms(1) obtain sl where sl: "begin_ptr left = Some (Inr sl)" "yields (cursor left) sl ls"
    by (auto simp: stream_yields_def split: option.splits sum.splits)
  from assms(2) obtain sr where sr: "begin_ptr right = Some (Inr sr)" "yields (cursor right) sr rs"
    by (auto simp: stream_yields_def split: option.splits sum.splits)
  from buildRightMap_yields [OF sr(2), where m = Map.empty and pre = "[]" and kr = kr and vr = vr] obtain rm where
    rm: "buildRightMap kr vr (cursor right) sr Map.empty = Some (Inr rm)"
        "\<forall>k. rm k = (if k \<in> kr ` set rs
                      then Some (map vr (filter (\<lambda>r. kr r = k) rs)) else None)"
    by auto
  have at: "at_key rm [] k = map vr (filter (\<lambda>r. kr r = k) rs)" for k
  proof (cases "k \<in> kr ` set rs")
    case True
    then show ?thesis using rm(2) by (simp add: at_key_def)
  next
    case False
    then have "\<forall>y \<in> set rs. kr y \<noteq> k" by (metis image_eqI)
    then have "filter (\<lambda>r. kr r = k) rs = []" by (simp add: filter_empty_conv)
    then show ?thesis using False rm(2) by (simp add: at_key_def)
  qed
  from advanceToNextValid_yields [OF sl(2), where rm = rm and cr = "[]" and kl = kl] obtain st where
    st: "advanceToNextValid kl rm (cursor left)
           \<lparr>left_it = sl, current_rights = [], current_right_index = 0\<rparr> = Inr st"
        "yields (JoinedIterator kl rm (cursor left)) st
           (concat (map (\<lambda>l. join_rows l (at_key rm [] (kl l))) ls))"
    by blast
  show ?thesis
    using sl(1) sr(1) rm(1) st by (simp add: JoinedDataStream_def stream_yields_def at)
qed

lemma Join_right_loop_yields:
  "yields R s rs \<Longrightarrow>
     Join_right_loop place rkey R s m
       = Some (Inr (fold (\<lambda>v m. emplace place m (rkey v) v) rs m))"
proof (induction arbitrary: m rule: yields.induct)
  case (yields_end s)
  then show ?case by (subst Join_right_loop.simps) simp
next
  case (yields_next s x s' xs)
  then show ?case by (subst Join_right_loop.simps) simp
qed

lemma Join_left_loop_yields:
  "yields L s ls \<Longrightarrow>
     Join_left_loop lkey rm L s acc
       = Some (Inr (acc @ concat (map (\<lambda>l. join_rows l (rm (lkey l))) ls)))"
proof (induction arbitrary: acc rule: yields.induct)
  case (yields_end s)
  then show ?case by (subst Join_left_loop.simps) simp
next
  case (yields_next s x s' xs)
  then show ?case
    by (subst Join_left_loop.simps) (simp add: join_rows_def Let_def)
qed

lemma mset_emplace:
  "mset (emplace place m k v k') = mset (m k') + (if k' = k then {#v#} else {#})"
proof -
  have "mset (take n xs @ [v] @ drop n xs) = mset xs + {#v#}" for n and xs :: "'a list"
    by (metis append_take_drop_id mset_append union_mset_add_mset_right add.right_neutral
          mset.simps(1,2) append_Cons append_Nil union_commute union_assoc)
  then show ?thesis by (simp add: emplace_def)
qed

lemma mset_fold_emplace:
  "mset (fold (\<lambda>v m. emplace place m (rkey v) v) rs m k)
     = mset (m k) + mset (filter (\<lambda>r. rkey r = k) rs)"
  by (induction rs arbitrary: m) (auto simp: mset_emplace)

lemma fold_emplace_back:
  "fold (\<lambda>v m. emplace place_back m (rkey v) v) rs m k
     = m k @ filter (\<lambda>r. rkey r = k) rs"
  by (induction rs arbitrary: m) (auto simp: emplace_def place_back_def)

lemma fold_emplace_front:
  "fold (\<lambda>v m. emplace place_front m (rkey v) v) rs m k
     = rev (filter (\<lambda>r. rkey r = k) rs) @ m k"
  by (induction rs arbitrary: m) (auto simp: emplace_def place_front_def)

lemma Join_yields:
  assumes "stream_yields left ls" and "stream_yields right rs"
  shows "Join place right lkey rkey left
           = Some (Inr (VectorDataStream (concat (map (\<lambda>l. join_rows l
                  (fold (\<lambda>v m. emplace place m (rkey v) v) rs (\<lambda>k. []) (lkey l))) ls))))"
proof -
  from assms(1) obtain sl where sl: "begin_ptr left = Some (Inr sl)" "yields (cursor left) sl ls"
    by (auto simp: stream_yields_def split: option.splits sum.splits)
  from assms(2) obtain sr where sr: "begin_ptr right = Some (Inr sr)" "yields (cursor right) sr rs"
    by (auto simp: stream_yields_def split: option.splits sum.splits)
  show ?thesis
    using sl(1) sr(1)
    by (simp add: Join_def Join_right_loop_yields [OF sr(2)] Join_left_loop_yields [OF sl(2)])
qed

lemma Join_place_back:
  assumes "stream_yields left ls" and "stream_yields right rs"
  shows "Join place_back right lkey rkey left
           = Some (Inr (VectorDataStream
                (concat (map (\<lambda>l. join_rows l (filter (\<lambda>r. rkey r = lkey l) rs)) ls))))"
  by (simp add: Join_yields [OF assms] fold_emplace_back)

lemma Join_place_front:
  assumes "stream_yields left ls" and "stream_yields right rs"
  shows "Join place_front right lkey rkey left
           = Some (Inr (VectorDataStream
                (concat (map (\<lambda>l. join_rows l (rev (filter (\<lambda>r. rkey r = lkey l) rs))) ls))))"
  by (simp add: Join_yields [OF assms] fold_emplace_front)

lemma join_rows_spec:
  "length (join_rows l ms) = max 1 (length ms)
   \<and> list_all (\<lambda>row. left_value row = l \<and> (right_value row = None \<longleftrightarrow> ms = []))
        (join_rows l ms)"
  by (cases ms) (auto simp: join_rows_def list_all_iff)

lemma join_left_outer:
  assumes "stream_yields left ls" and "stream_yields right rs"
    and "stream_yields left' ls'" and "stream_yields right' rs'"
  shows "(\<exists>J. JoinedDataStream kl kr vr left right = Some (Inr J)
            \<and> AsVector J
                = Some (Inr (concat (map (\<lambda>l. join_rows l
                      (map vr (filter (\<lambda>r. kr r = kl l) rs))) ls))))
       \<and> (\<exists>M. (\<forall>k. mset (M k) = mset (filter (\<lambda>r. rkey r = k) rs'))
            \<and> Join place right' lkey rkey left'
                = Some (Inr (VectorDataStream
                     (concat (map (\<lambda>l. join_rows l (M (lkey l))) ls')))))
       \<and> (\<forall>l ms. length (join_rows l ms) = max 1 (length ms)
            \<and> list_all (\<lambda>row. left_value row = l \<and> (right_value row = None \<longleftrightarrow> ms = []))
                 (join_rows l ms))"
proof -
  from JoinedDataStream_yields [OF assms(1,2), of kl kr vr] obtain J where
    J: "JoinedDataStream kl kr vr left right = Some (Inr J)"
       "stream_yields J (concat (map (\<lambda>l. join_rows l
           (map vr (filter (\<lambda>r. kr r = kl l) rs))) ls))"
    by blast
  have a: "\<exists>J. JoinedDataStream kl kr vr left right = Some (Inr J)
            \<and> AsVector J
                = Some (Inr (concat (map (\<lambda>l. join_rows l
                      (map vr (filter (\<lambda>r. kr r = kl l) rs))) ls)))"
    using J(1) AsVector_yields [OF J(2)] by (intro exI [of _ J]) simp
  let ?M = "fold (\<lambda>v m. emplace place m (rkey v) v) rs' (\<lambda>k. [])"
  have "\<forall>k. mset (?M k) = mset (filter (\<lambda>r. rkey r = k) rs')"
    by (simp add: mset_fold_emplace)
  then have b: "\<exists>M. (\<forall>k. mset (M k) = mset (filter (\<lambda>r. rkey r = k) rs'))
            \<and> Join place right' lkey rkey left'
                = Some (Inr (VectorDataStream
                     (concat (map (\<lambda>l. join_rows l (M (lkey l))) ls'))))"
    using Join_yields [OF assms(3,4), of place lkey rkey] by (intro exI [of _ ?M]) simp
  show ?thesis using a b join_rows_spec by blast
qed

lemma JoinedDataStream_example:
  "\<exists>J. JoinedDataStream key fst (\<lambda>r. (0, snd r))
          (AsDataFlow [\<lparr>key = 1 :: nat, kv_value = ''a''\<rparr>, \<lparr>key = 2, kv_value = ''b''\<rparr>])
          (AsDataFlow [(1 :: nat, 10 :: nat), (3, 30), (1, 20)])
        = Some (Inr J)
      \<and> AsVector J
          = Some (Inr [\<lparr>left_value = \<lparr>key = 1, kv_value = ''a''\<rparr>, right_value = Some (0, 10)\<rparr>,
                       \<lparr>left_value = \<lparr>key = 1, kv_value = ''a''\<rparr>, right_value = Some (0, 20)\<rparr>,
                       \<lparr>left_value = \<lparr>key = 2, kv_value = ''b''\<rparr>, right_value = None\<rparr>])"
proof -
  let ?ls = "[\<lparr>key = 1 :: nat, kv_value = ''a''\<rparr>, \<lparr>key = 2, kv_value = ''b''\<rparr>]"
  let ?rs = "[(1 :: nat, 10 :: nat), (3, 30), (1, 20)]"
  have y: "stream_yields (AsDataFlow ?ls) ?ls" "stream_yields (AsDataFlow ?rs) ?rs"
    by (rule AsDataFlow_yields; simp add: SIZE_MAX_def)+
  from JoinedDataStream_yields [OF y, of key fst "\<lambda>r. (0, snd r)"] obtain J where
    J: "JoinedDataStream key fst (\<lambda>r. (0, snd r)) (AsDataFlow ?ls) (AsDataFlow ?rs) = Some (Inr J)"
       "stream_yields J (concat (map (\<lambda>l. join_rows l
           (map (\<lambda>r. (0, snd r)) (filter (\<lambda>r. fst r = key l) ?rs))) ?ls))"
    by blast
  show ?thesis
    using J(1) AsVector_yields [OF J(2)] by (intro exI [of _ J]) (simp add: join_rows_def)
qed

section \<open>The file source\<close>

lemma FileIterator_sel [simp]:
  "deref (FileIterator fs P) = FileIterator_deref"
  "incr (FileIterator fs P) = FileIterator_incr fs P"
  "getIsEnd (FileIterator fs P) = f_is_end"
  "neq_end (FileIterator fs P) st = (\<not> f_is_end st)"
  by (simp_all add: FileIterator_def)

lemma getline_no_first_line:
  assumes "takeWhile (\<lambda>c. c \<noteq> newline) content = []"
  shows "\<exists>f1. getline \<lparr>buf = content, eofbit = False, failbit = False\<rparr> str = (f1, [])"
  using assms by (cases "content = []") (auto simp: getline_def Let_def)

lemma newline_chr: "newline = CHR ''\<newline>''"
  by (simp add: newline_def)

section \<open>End of stream\<close>

lemma advance_end:
  assumes step: "\<And>s s'. getIsEnd It s \<Longrightarrow> incr It s = Some (Inr s') \<Longrightarrow> getIsEnd It s'"
  shows "getIsEnd It s \<Longrightarrow> advance It n s = Some (Inr s') \<Longrightarrow> getIsEnd It s'"
proof (induction n arbitrary: s)
  case 0
  then show ?case by simp
next
  case (Suc n)
  from Suc.prems(2) obtain s1 where s1: "incr It s = Some (Inr s1)" "advance It n s1 = Some (Inr s')"
    by (auto split: option.splits sum.splits)
  from step [OF Suc.prems(1) s1(1)] have "getIsEnd It s1" .
  from Suc.IH [OF this s1(2)] show ?case .
qed

lemma VectorIterator_end_step:
  "getIsEnd VectorIterator s \<Longrightarrow> incr VectorIterator s = Some (Inr s') \<Longrightarrow> getIsEnd VectorIterator s'"
  by (auto simp: VectorIterator_incr_def Let_def split: option.splits if_splits)

lemma skip_non_regular_files_end: "d_is_end (skip_non_regular_files es True)"
  by (induction es True rule: skip_non_regular_files.induct) auto

lemma DirIterator_sel [simp]:
  "deref DirIterator = DirIterator_deref"
  "incr DirIterator = DirIterator_incr"
  "getIsEnd DirIterator = d_is_end"
  "neq_end DirIterator s = (\<not> d_is_end s)"
  by (simp_all add: DirIterator_def)

lemma DirIterator_end_step:
  "getIsEnd DirIterator s \<Longrightarrow> incr DirIterator s = Some (Inr s') \<Longrightarrow> getIsEnd DirIterator s'"
  by (auto simp: DirIterator_incr_def skip_non_regular_files_end split: list.splits)

lemma FileIterator_end_step:
  "getIsEnd (FileIterator fs P) s \<Longrightarrow> incr (FileIterator fs P) s = Some (Inr s')
     \<Longrightarrow> getIsEnd (FileIterator fs P) s'"
  by (auto simp: FileIterator_incr_def)

lemma FilteredIterator_sel [simp]:
  "deref (FilteredIterator p up) = deref up"
  "incr (FilteredIterator p up) = FilteredIterator_incr p up"
  "getIsEnd (FilteredIterator p up) = getIsEnd up"
  "neq_end (FilteredIterator p up) = neq_end up"
  by (simp_all add: FilteredIterator_def)

lemma FilteredIterator_end_step:
  assumes "\<And>u u'. getIsEnd up u \<Longrightarrow> incr up u = Some (Inr u') \<Longrightarrow> getIsEnd up u'"
  shows "getIsEnd (FilteredIterator p up) s \<Longrightarrow> incr (FilteredIterator p up) s = Some (Inr s')
     \<Longrightarrow> getIsEnd (FilteredIterator p up) s'"
proof -
  assume e: "getIsEnd (FilteredIterator p up) s"
    and i: "incr (FilteredIterator p up) s = Some (Inr s')"
  from i obtain u1 where u1: "incr up s = Some (Inr u1)" "skipInvalid p up u1 = Some (Inr s')"
    by (auto simp: FilteredIterator_incr_def split: option.splits sum.splits)
  from assms [OF _ u1(1)] e have "getIsEnd up u1" by simp
  then have "skipInvalid p up u1 = Some (Inr u1)" by (subst skipInvalid.simps) simp
  with u1(2) \<open>getIsEnd up u1\<close> show ?thesis by simp
qed

lemma TransformedIterator_end_step:
  assumes "\<And>u u'. getIsEnd up u \<Longrightarrow> incr up u = Some (Inr u') \<Longrightarrow> getIsEnd up u'"
  shows "getIsEnd (TransformedIterator f up) s \<Longrightarrow> incr (TransformedIterator f up) s = Some (Inr s')
     \<Longrightarrow> getIsEnd (TransformedIterator f up) s'"
  using assms
  by (auto simp: TransformedIterator_incr_def split: option.splits sum.splits)

lemma SplitIterator_end_step:
  "getIsEnd (SplitIterator D up) s \<Longrightarrow> incr (SplitIterator D up) s = Some (Inr s')
     \<Longrightarrow> getIsEnd (SplitIterator D up) s'"
proof -
  assume e: "getIsEnd (SplitIterator D up) s"
    and i: "incr (SplitIterator D up) s = Some (Inr s')"
  have "skipToNext_loop D up (s\<lparr>sp_current_line := []\<rparr>) = Some (Inr (s\<lparr>sp_current_line := []\<rparr>))"
    using e by (subst skipToNext_loop.simps) simp
  with i have "s' = s\<lparr>sp_current_line := []\<rparr>" by (simp add: skipToNext_def)
  with e show ?thesis by simp
qed

lemma JoinedIterator_end_step:
  assumes "\<And>u u'. getIsEnd L u \<Longrightarrow> incr L u = Some (Inr u') \<Longrightarrow> getIsEnd L u'"
  shows "getIsEnd (JoinedIterator kl rm L) s \<Longrightarrow> incr (JoinedIterator kl rm L) s = Some (Inr s')
     \<Longrightarrow> getIsEnd (JoinedIterator kl rm L) s'"
  using assms
  by (auto simp: JoinedIterator_incr_def advanceToNextValid_def Let_def
           split: option.splits sum.splits if_splits)


lemma DirIterator_incr_at_end:
  "incr DirIterator \<lparr>d_entries = [], d_is_end = True\<rparr> = Some (Inl RuntimeError)"
  by (simp add: DirIterator_incr_def)

lemma end_flag_stays_set:
  assumes "\<And>u u'. getIsEnd up u \<Longrightarrow> incr up u = Some (Inr u') \<Longrightarrow> getIsEnd up u'"
    and "\<And>u u'. getIsEnd L u \<Longrightarrow> incr L u = Some (Inr u') \<Longrightarrow> getIsEnd L u'"
  shows "(getIsEnd VectorIterator v \<longrightarrow> advance VectorIterator n v = Some (Inr v')
            \<longrightarrow> getIsEnd VectorIterator v')
       \<and> (getIsEnd (FileIterator fs P) f \<longrightarrow> advance (FileIterator fs P) n f = Some (Inr f')
            \<longrightarrow> getIsEnd (FileIterator fs P) f')
       \<and> (getIsEnd (FilteredIterator predicate up) a
            \<longrightarrow> advance (FilteredIterator predicate up) n a = Some (Inr a')
            \<longrightarrow> getIsEnd (FilteredIterator predicate up) a')
       \<and> (getIsEnd (TransformedIterator transform_func up) t
            \<longrightarrow> advance (TransformedIterator transform_func up) n t = Some (Inr t')
            \<longrightarrow> getIsEnd (TransformedIterator transform_func up) t')
       \<and> (getIsEnd (SplitIterator delimiters ups) sp
            \<longrightarrow> advance (SplitIterator delimiters ups) n sp = Some (Inr sp')
            \<longrightarrow> getIsEnd (SplitIterator delimiters ups) sp')
       \<and> (getIsEnd (JoinedIterator key_l right_map L) j
            \<longrightarrow> advance (JoinedIterator key_l right_map L) n j = Some (Inr j')
            \<longrightarrow> getIsEnd (JoinedIterator key_l right_map L) j')"
proof (intro conjI impI)
  show "getIsEnd VectorIterator v'"
    if "getIsEnd VectorIterator v" "advance VectorIterator n v = Some (Inr v')"
    using advance_end [of VectorIterator, OF VectorIterator_end_step that] .
  show "getIsEnd (FileIterator fs P) f'"
    if "getIsEnd (FileIterator fs P) f" "advance (FileIterator fs P) n f = Some (Inr f')"
    using advance_end [of "FileIterator fs P", OF FileIterator_end_step that] .
  show "getIsEnd (FilteredIterator predicate up) a'"
    if "getIsEnd (FilteredIterator predicate up) a"
      "advance (FilteredIterator predicate up) n a = Some (Inr a')"
    using advance_end [of "FilteredIterator predicate up",
        OF FilteredIterator_end_step [of up, OF assms(1)] that] .
  show "getIsEnd (TransformedIterator transform_func up) t'"
    if "getIsEnd (TransformedIterator transform_func up) t"
      "advance (TransformedIterator transform_func up) n t = Some (Inr t')"
    using advance_end [of "TransformedIterator transform_func up",
        OF TransformedIterator_end_step [of up, OF assms(1)] that] .
  show "getIsEnd (SplitIterator delimiters ups) sp'"
    if "getIsEnd (SplitIterator delimiters ups) sp"
      "advance (SplitIterator delimiters ups) n sp = Some (Inr sp')"
    using advance_end [of "SplitIterator delimiters ups", OF SplitIterator_end_step that] .
  show "getIsEnd (JoinedIterator key_l right_map L) j'"
    if "getIsEnd (JoinedIterator key_l right_map L) j"
      "advance (JoinedIterator key_l right_map L) n j = Some (Inr j')"
    using advance_end [of "JoinedIterator key_l right_map L",
        OF JoinedIterator_end_step [of L, OF assms(2)] that] .
qed

section \<open>Every stream kind honours the protocol over such an upstream\<close>

lemma skip_non_regular_files_yields:
  "yields DirIterator (skip_non_regular_files es False) (map fst (filter snd es))"
proof (induction es)
  case Nil
  show ?case by (simp add: yields_end)
next
  case (Cons e es)
  obtain p regular where e: "e = (p, regular)" by (cases e)
  show ?case
  proof (cases regular)
    case True
    have "yields DirIterator \<lparr>d_entries = (p, True) # es, d_is_end = False\<rparr>
            (p # map fst (filter snd es))"
      using Cons
      by (intro yields_next [where s' = "skip_non_regular_files es False"])
         (simp_all add: DirIterator_deref_def DirIterator_incr_def)
    then show ?thesis using e True by simp
  next
    case False
    then show ?thesis using e Cons by simp
  qed
qed

lemma Dir_yields:
  "Dir (Some es) = Inr S \<Longrightarrow> stream_yields S (map fst (filter snd es))"
  using skip_non_regular_files_yields [of es]
  by (auto simp: Dir_def stream_yields_def DirIterator_begin_def)

lemma skipInvalid_yields:
  assumes "yields up s xs"
  shows "\<exists>s'. skipInvalid p up s = Some (Inr s')
              \<and> yields (FilteredIterator p up) s' (filter p xs)"
  using assms
proof (induction rule: yields.induct)
  case (yields_end s)
  have "yields (FilteredIterator p up) s []"
    using yields_end by (intro yields.yields_end) simp_all
  moreover have "skipInvalid p up s = Some (Inr s)"
    using yields_end by (subst skipInvalid.simps) simp
  ultimately show ?case by simp
next
  case (yields_next s x s' xs)
  from yields_next.IH obtain s'' where
    s'': "skipInvalid p up s' = Some (Inr s'')"
         "yields (FilteredIterator p up) s'' (filter p xs)" by blast
  show ?case
  proof (cases "p x")
    case True
    have "skipInvalid p up s = Some (Inr s)"
      using yields_next.hyps True by (subst skipInvalid.simps) simp
    moreover have "yields (FilteredIterator p up) s (x # filter p xs)"
      using yields_next.hyps s''
      by (intro yields.yields_next [where s' = s'']) (simp_all add: FilteredIterator_incr_def)
    ultimately show ?thesis using True by simp
  next
    case False
    have "skipInvalid p up s = Some (Inr s'')"
      using yields_next.hyps False s''(1) by (subst skipInvalid.simps) simp
    then show ?thesis using False s''(2) by simp
  qed
qed

lemma Filter_yields:
  assumes "stream_yields S xs"
  shows "stream_yields (Filter p S) (filter p xs)"
proof -
  from assms obtain s where s: "begin_ptr S = Some (Inr s)" "yields (cursor S) s xs"
    by (auto simp: stream_yields_def split: option.splits sum.splits)
  from skipInvalid_yields [OF s(2), of p] obtain s' where
    "skipInvalid p (cursor S) s = Some (Inr s')"
    "yields (FilteredIterator p (cursor S)) s' (filter p xs)" by blast
  then show ?thesis using s(1) by (simp add: stream_yields_def Filter_def)
qed

lemma TransformedIterator_yields:
  "yields up s xs \<Longrightarrow>
     yields (TransformedIterator (\<lambda>w x. (g x, w)) up) \<lparr>t_it = s, t_store = w\<rparr> (map g xs)"
proof (induction rule: yields.induct)
  case (yields_end s)
  then have "yields (TransformedIterator (\<lambda>w x. (g x, w)) up) \<lparr>t_it = s, t_store = w\<rparr> []"
    by (intro yields.yields_end) simp_all
  then show ?case by simp
next
  case (yields_next s x s' xs)
  then have "yields (TransformedIterator (\<lambda>w x. (g x, w)) up) \<lparr>t_it = s, t_store = w\<rparr>
               (g x # map g xs)"
    by (intro yields.yields_next [where s' = "\<lparr>t_it = s', t_store = w\<rparr>"])
       (simp_all add: TransformedIterator_deref_def TransformedIterator_incr_def)
  then show ?case by simp
qed

lemma Transform_yields:
  assumes "stream_yields S xs"
  shows "stream_yields (Transform (\<lambda>w x. (g x, w)) w S) (map g xs)"
proof -
  from assms obtain s where s: "begin_ptr S = Some (Inr s)" "yields (cursor S) s xs"
    by (auto simp: stream_yields_def split: option.splits sum.splits)
  from TransformedIterator_yields [OF s(2), of g w] show ?thesis
    using s(1) by (simp add: stream_yields_def Transform_def)
qed

section \<open>The specification functions and the tests\<close>

lemma tokens_from_split:
  "d \<in> D \<Longrightarrow> tokens_from D cur (xs @ d # ys) = tokens_from D cur xs @ tokens_from D [] ys"
  by (induction xs arbitrary: cur) simp_all

lemma tokens_from_no_delimiter:
  "set xs \<inter> D = {} \<Longrightarrow> cur @ xs \<noteq> [] \<Longrightarrow> tokens_from D cur xs = [cur @ xs]"
  by (induction xs arbitrary: cur) simp_all

lemma tokens_Nil: "tokens D [] = []"
  by (simp add: tokens_def)

lemma tokens_no_delimiter: "set xs \<inter> D = {} \<Longrightarrow> xs \<noteq> [] \<Longrightarrow> tokens D xs = [xs]"
  using tokens_from_no_delimiter [of xs D "[]"] by (simp add: tokens_def)

lemma tokens_split: "d \<in> D \<Longrightarrow> tokens D (xs @ d # ys) = tokens D xs @ tokens D ys"
  by (simp add: tokens_def tokens_from_split)

lemma transform_calls_nonempty:
  assumes "xs \<noteq> []" and "length xs \<le> SIZE_MAX"
  shows "AsVector_run (Transform (counting f) (w, 0) (AsDataFlow xs))
   = Some (Inr (fst (map_with_store f w xs),
               \<lparr>t_it = \<lparr>v_data = Some xs, v_index = length xs, v_is_end = True\<rparr>,
                t_store = (snd (map_with_store f w xs), length xs)\<rparr>))"
  using transform_collect_nonempty [OF assms, of "counting f" "(w, 0)"]
  by (simp add: map_with_store_counting)

lemma running_total_example:
  "AsVector (Transform (\<lambda>total x. (total + x, total + x)) 0 (AsDataFlow [1, 2, 3, 4, 5 :: int]))
     = Some (Inr [1, 3, 6, 10, 15])"
proof -
  have "[1, 2, 3, 4, 5 :: int] \<noteq> []" "length [1, 2, 3, 4, 5 :: int] \<le> SIZE_MAX"
    by (simp_all add: SIZE_MAX_def)
  from transform_collect_nonempty [OF this, of "\<lambda>total x. (total + x, total + x)" 0]
  show ?thesis by (simp add: AsVector_def)
qed

section \<open>The properties of the specification\<close>

text \<open>
  C1 (the line reader emits no empty string).  \<^verbatim>\<open>open_next_file\<close> refuses a file
  whose first line is empty, but \<^verbatim>\<open>operator++\<close> accepts whatever \<^verbatim>\<open>std::getline\<close>
  delivers, so an empty line after the first line of a file becomes an element.
  The file \<open>f\<close> below holds the lines \<open>a\<close>, the empty line and \<open>b\<close>; the
  specification asks for \<open>[a, b]\<close>.
\<close>

theorem C1_empty_line_inside_file:
  "AsVector (OpenFiles [''f'' \<mapsto> ''a\<newline>\<newline>b''] (AsDataFlow [''f'']))
     = Some (Inr [''a'', [], ''b''])
   \<and> Dir (Some [(''f'', True)])
     = Inr \<lparr>cursor = DirIterator, begin_ptr = Some (Inr (DirIterator_begin [(''f'', True)]))\<rparr>
   \<and> AsVector (OpenFiles [''f'' \<mapsto> ''a\<newline>\<newline>b'']
                 \<lparr>cursor = DirIterator,
                  begin_ptr = Some (Inr (DirIterator_begin [(''f'', True)]))\<rparr>)
     = Some (Inr [''a'', [], ''b''])"
  by (simp add: AsVector_def AsVector_run_def OpenFiles_def AsDataFlow_def VectorDataStream_def VectorIterator_begin_def
        open_next_file_def open_next_file_loop.simps AsVector_loop.simps
        FileIterator_deref_def FileIterator_incr_def neq_null_other_def
        VectorIterator_deref_def VectorIterator_incr_def size_t_incr_def SIZE_MAX_def
        ifstream_open_def getline_def
        newline_def Let_def Dir_def DirIterator_begin_def DirIterator_deref_def
        DirIterator_incr_def)

text \<open>
  C2 (order of the right matches).  \<^verbatim>\<open>JoinedDataStream\<close> keeps the right values of
  one key in a vector filled by \<^verbatim>\<open>push_back\<close>, so its matches come in insertion
  order (\<open>JoinedDataStream_yields\<close>).  \<^verbatim>\<open>Join(right, lkey, rkey)\<close> reads them from a
  \<^verbatim>\<open>std::unordered_multimap\<close>, whose order among equal keys is the library's:
  insertion order where new elements are put behind their equivalents
  (\<open>Join_place_back\<close>), the reverse where they are put in front
  (\<open>Join_place_front\<close>), as below for one left element and two right elements of
  its key: the stage returns the stream over the two rows in reverse insertion
  order, and collecting that stream gives them in that order.
\<close>

theorem C2_key_function_join_order:
  "Join place_front (AsDataFlow [(1 :: nat, ''a''), (1, ''b'')]) (\<lambda>l. l) fst (AsDataFlow [1 :: nat])
     = Some (Inr (VectorDataStream
         [\<lparr>left_value = 1, right_value = Some (1, ''b'')\<rparr>,
          \<lparr>left_value = 1, right_value = Some (1, ''a'')\<rparr>]))
   \<and> AsVector (VectorDataStream
         [\<lparr>left_value = 1 :: nat, right_value = Some (1 :: nat, ''b'')\<rparr>,
          \<lparr>left_value = 1, right_value = Some (1, ''a'')\<rparr>])
     = Some (Inr [\<lparr>left_value = 1, right_value = Some (1, ''b'')\<rparr>,
                  \<lparr>left_value = 1, right_value = Some (1, ''a'')\<rparr>])"
proof -
  have "stream_yields (AsDataFlow [1 :: nat]) [1]"
    "stream_yields (AsDataFlow [(1 :: nat, ''a''), (1, ''b'')]) [(1, ''a''), (1, ''b'')]"
    by (rule AsDataFlow_yields; simp add: SIZE_MAX_def)+
  from Join_place_front [OF this, of "\<lambda>l. l" fst]
  have a: "Join place_front (AsDataFlow [(1 :: nat, ''a''), (1, ''b'')]) (\<lambda>l. l) fst
             (AsDataFlow [1 :: nat])
     = Some (Inr (VectorDataStream
         [\<lparr>left_value = 1, right_value = Some (1, ''b'')\<rparr>,
          \<lparr>left_value = 1, right_value = Some (1, ''a'')\<rparr>]))"
    by (simp add: join_rows_def)
  have "stream_yields
          (AsDataFlow [\<lparr>left_value = 1 :: nat, right_value = Some (1 :: nat, ''b'')\<rparr>,
                       \<lparr>left_value = 1, right_value = Some (1, ''a'')\<rparr>])
          [\<lparr>left_value = 1, right_value = Some (1, ''b'')\<rparr>,
           \<lparr>left_value = 1, right_value = Some (1, ''a'')\<rparr>]"
    by (rule AsDataFlow_yields) (simp_all add: SIZE_MAX_def)
  from AsVector_yields [OF this]
  have b: "AsVector (VectorDataStream
         [\<lparr>left_value = 1 :: nat, right_value = Some (1 :: nat, ''b'')\<rparr>,
          \<lparr>left_value = 1, right_value = Some (1, ''a'')\<rparr>])
     = Some (Inr [\<lparr>left_value = 1, right_value = Some (1, ''b'')\<rparr>,
                  \<lparr>left_value = 1, right_value = Some (1, ''a'')\<rparr>])"
    by (simp add: AsDataFlow_def)
  show ?thesis using a b by (rule conjI)
qed

text \<open>
  C3 (no gluing across upstream elements).  Over every upstream that honours the
  cursor protocol and delivers the text elements \<open>xs\<close>, collecting the split
  stream gives the tokens of the first element, then those of the second, and so
  on: every token lies within one element.  A token in progress when its element
  is exhausted is the last token of that element and is emitted before anything
  of the next element; the token in progress when the upstream ends is emitted
  before end-of-stream.
\<close>

theorem C3_split_no_gluing:
  assumes "stream_yields S xs"
  shows "AsVector (Split ds S) = Some (Inr (concat (map (tokens (set ds)) xs)))"
  by (rule AsVector_yields [OF Split_yields [OF assms]])

theorem C3_split_no_gluing_witness:
  "AsVector (Split '',;'' (AsDataFlow [''1,2,3,4,5'', ''6;7;8;9;10'']))
     = Some (Inr [''1'', ''2'', ''3'', ''4'', ''5'', ''6'', ''7'', ''8'', ''9'', ''10''])"
  using C3_split_no_gluing [OF AsDataFlow_yields, of "[''1,2,3,4,5'', ''6;7;8;9;10'']" "'',;''"]
  by (simp add: tokens_def SIZE_MAX_def)

text \<open>
  C4 (transform order).  For a non-empty in-memory source the pipeline
  \<open>source xs | transform f | collect\<close> does what the specification says
  (\<open>transform_collect_nonempty\<close>: the result is \<open>map_with_store f w xs\<close>, one call of
  \<open>f\<close> per element, made when the element is read).  For the empty source it does
  not: the begin cursor of \<^verbatim>\<open>VectorDataStream\<close> starts with \<^verbatim>\<open>is_end = false\<close>, so
  \<^verbatim>\<open>AsVector\<close> enters its loop and \<^verbatim>\<open>operator*\<close> hands \<open>f\<close> the element
  \<^verbatim>\<open>(*data)[0]\<close> of an empty vector.  The specification asks for the empty result
  and no call of \<open>f\<close>.
\<close>

theorem C4_transform_on_empty_source:
  "AsVector (Transform f w (AsDataFlow [])) = Some (Inl UndefinedBehaviour)"
  by (subst AsVector_def, subst AsVector_run_def, subst AsVector_loop.simps)
     (simp add: Transform_def AsDataFlow_def VectorDataStream_def VectorIterator_begin_def
        TransformedIterator_deref_def VectorIterator_deref_def)

text \<open>
  C5 (aggregation key order).  The claim speaks of every input stream.  Over an
  upstream that honours the cursor protocol the stage does what it says
  (\<open>AggregateByKey_first_occurrence_order\<close>: one pair per distinct key, the keys
  in the order of their first occurrence).  Over the library's own in-memory
  stream of an empty vector it does not.  The begin cursor of
  \<^verbatim>\<open>VectorDataStream\<close> starts with \<^verbatim>\<open>is_end = false\<close> whatever the vector holds, so
  the constructor's loop \<^verbatim>\<open>while (!it.getIsEnd())\<close> is entered and \<^verbatim>\<open>*it\<close> reads
  \<^verbatim>\<open>(*data)[0]\<close> of the empty vector: no stream is built.  The input has no key,
  and the specification asks for the stream without pairs.  The cursor of
  \<^verbatim>\<open>DirStream\<close> and the cursor of the aggregate stream itself are at their end
  from the start when there is nothing to deliver.
\<close>

theorem C5_aggregate_over_empty_vector:
  "AggregateByKey initial_value accumulate_func key_func dflt (AsDataFlow [])
     = Some (Inl UndefinedBehaviour)"
  by (subst AggregateByKey_def, subst aggregate_results_def, subst aggregate_loop.simps)
     (simp add: AsDataFlow_def VectorDataStream_def VectorIterator_begin_def
        VectorIterator_deref_def)

text \<open>
  C6 (join is left-outer).  Over upstreams that honour the cursor protocol both
  join shapes emit, for the left elements in upstream order, \<open>max 1 k\<close> rows for a
  left element with \<open>k\<close> matches, the one row for \<open>k = 0\<close> with no right value
  (\<open>join_left_outer\<close>).  They do not when the right side is the library's
  in-memory stream of an empty vector, where every left element is unmatched.
  The begin cursor of \<^verbatim>\<open>VectorDataStream\<close> starts with \<^verbatim>\<open>is_end = false\<close> whatever
  the vector holds, so the loop that fills \<^verbatim>\<open>right_map\<close> is entered and \<^verbatim>\<open>*rit\<close>
  (in \<^verbatim>\<open>buildRightMap\<close>, \<^verbatim>\<open>*it\<close>) reads \<^verbatim>\<open>(*data)[0]\<close> of the empty vector, before
  any left element is looked at.  For the left elements \<open>[1]\<close> the specification
  asks for the one row of \<open>1\<close> with no right value, and for no error.
\<close>

theorem C6_join_over_empty_right:
  "Join place (AsDataFlow []) lkey rkey left = Some (Inl UndefinedBehaviour)
   \<and> JoinedDataStream key_l key_r value_r left (AsDataFlow []) = Some (Inl UndefinedBehaviour)"
  by (subst Join_def, subst Join_right_loop.simps,
      subst JoinedDataStream_def, subst buildRightMap.simps)
     (simp add: AsDataFlow_def VectorDataStream_def VectorIterator_begin_def
        VectorIterator_deref_def VectorIterator_neq_def VectorIterator_end_def)

text \<open>
  C7 (reading after the end raises).  Only the file cursor checks: its
  \<^verbatim>\<open>operator*\<close> throws when \<^verbatim>\<open>is_end\<close> is set (last conjunct).  The in-memory
  cursor advanced past its one element reads \<^verbatim>\<open>(*data)[1]\<close> of a vector of size 1,
  which raises nothing; the aggregate cursor reads \<^verbatim>\<open>results_[index_]\<close> the same
  way; and the split cursor at its end hands out its empty \<^verbatim>\<open>current_line\<close> as if
  it were an element.
\<close>

theorem C7_read_after_end:
  "advance VectorIterator 1 (VectorIterator_begin [7 :: nat])
       = Some (Inr \<lparr>v_data = Some [7], v_index = 1, v_is_end = True\<rparr>)
   \<and> deref VectorIterator \<lparr>v_data = Some [7 :: nat], v_index = 1, v_is_end = True\<rparr>
       = Inl UndefinedBehaviour
   \<and> begin_ptr (Split '','' (AsDataFlow [''a'']))
       = Some (Inr \<lparr>sp_it = \<lparr>v_data = Some [''a''], v_index = 1, v_is_end = True\<rparr>,
                    sp_current_line = ''a'', pos_in_line = 0\<rparr>)
   \<and> advance (cursor (Split '','' (AsDataFlow [''a'']))) 1
         \<lparr>sp_it = \<lparr>v_data = Some [''a''], v_index = 1, v_is_end = True\<rparr>,
          sp_current_line = ''a'', pos_in_line = 0\<rparr>
       = Some (Inr \<lparr>sp_it = \<lparr>v_data = Some [''a''], v_index = 1, v_is_end = True\<rparr>,
                    sp_current_line = [], pos_in_line = 0\<rparr>)
   \<and> getIsEnd (cursor (Split '','' (AsDataFlow [''a''])))
         \<lparr>sp_it = \<lparr>v_data = Some [''a''], v_index = 1, v_is_end = True\<rparr>,
          sp_current_line = [], pos_in_line = 0\<rparr>
   \<and> deref (cursor (Split '','' (AsDataFlow [''a''])))
         \<lparr>sp_it = \<lparr>v_data = Some [''a''], v_index = 1, v_is_end = True\<rparr>,
          sp_current_line = [], pos_in_line = 0\<rparr>
       = Inr ([], \<lparr>sp_it = \<lparr>v_data = Some [''a''], v_index = 1, v_is_end = True\<rparr>,
                   sp_current_line = [], pos_in_line = 0\<rparr>)
   \<and> getIsEnd (AggregateByKey_Iterator [(0 :: nat, 1 :: nat)]) 1
   \<and> deref (AggregateByKey_Iterator [(0 :: nat, 1 :: nat)]) 1 = Inl UndefinedBehaviour
   \<and> deref (FileIterator fs P)
         \<lparr>path_it = s, current_file = None, current_line = [], f_is_end = True, opened = log\<rparr>
       = Inl RuntimeError"
  by (simp add: VectorIterator_begin_def VectorIterator_incr_def VectorIterator_deref_def
        size_t_incr_def SIZE_MAX_def Split_def AsDataFlow_def VectorDataStream_def skipToNext_def
        skipToNext_loop.simps FileIterator_deref_def)

text \<open>
  C8 (split emits no empties).  Over every upstream that honours the cursor
  protocol, the collected split stream holds no empty token and no token with a
  character of the delimiter string.
\<close>

theorem C8_split_tokens:
  assumes "stream_yields S xs"
  shows "\<exists>toks. AsVector (Split ds S) = Some (Inr toks)
           \<and> (\<forall>t \<in> set toks. t \<noteq> [] \<and> set t \<inter> set ds = {})"
proof -
  have "AsVector (Split ds S) = Some (Inr (concat (map (tokens (set ds)) xs)))"
    by (rule AsVector_yields [OF Split_yields [OF assms]])
  moreover have "\<forall>t \<in> set (concat (map (tokens (set ds)) xs)). t \<noteq> [] \<and> set t \<inter> set ds = {}"
    using tokens_sound by fastforce
  ultimately show ?thesis by blast
qed

theorem C8_split_tokens_witness:
  "\<exists>toks. AsVector (Split '', '' (AsDataFlow ['',a,,b c'', [], ''d '', ''e'']))
              = Some (Inr toks)
        \<and> list_all (\<lambda>t. t \<noteq> [] \<and> set t \<inter> set '', '' = {}) toks"
  using C8_split_tokens [OF AsDataFlow_yields, of "['',a,,b c'', [], ''d '', ''e'']" "'', ''"]
  by (simp add: list_all_iff SIZE_MAX_def)


text \<open>
  C10 (a file without a non-empty first line costs the next path too).  When
  the path \<open>p\<close> under the path cursor opens and its content is empty or starts
  with a newline, \<^verbatim>\<open>open_next_file\<close> has advanced the path cursor once after
  opening and advances it again before the next round of its loop: it goes on
  exactly as if started two positions further with only \<open>p\<close> added to the
  opened paths.  The path at the position in between is neither read from the
  path cursor nor opened, and nothing more of the file of \<open>p\<close> is read.  In the
  instance that follows \<open>q\<close> holds the line \<open>skipped\<close>; only the line of \<open>r\<close> is collected, and
  the paths opened are \<open>p\<close> and \<open>r\<close>.
\<close>

theorem C10_empty_first_line_skips_next_path:
  assumes "\<not> getIsEnd P s" and "deref P s = Inr (p, s)"
    and "incr P s = Some (Inr s')" and "incr P s' = Some (Inr s'')"
    and "fs p = Some content"
    and "takeWhile (\<lambda>c. c \<noteq> newline) content = []"
  shows "open_next_file fs P
           \<lparr>path_it = s, current_file = cf, current_line = cl, f_is_end = e, opened = log\<rparr>
         = open_next_file fs P
           \<lparr>path_it = s'', current_file = None, current_line = [], f_is_end = False,
            opened = log @ [p]\<rparr>"
proof -
  from getline_no_first_line [OF assms(6), of "[]"] obtain f1 where
    g: "getline \<lparr>buf = content, eofbit = False, failbit = False\<rparr> [] = (f1, [])" by blast
  have "open_next_file_loop fs P
          \<lparr>path_it = s, current_file = cf, current_line = [], f_is_end = e, opened = log\<rparr>
        = open_next_file_loop fs P
          \<lparr>path_it = s'', current_file = None, current_line = [], f_is_end = False,
           opened = log @ [p]\<rparr>"
    using assms(1-5) g
    by (subst open_next_file_loop.simps)
       (simp add: neq_null_other_def ifstream_open_def)
  then show ?thesis by (simp add: open_next_file_def)
qed

theorem C10_empty_first_line_skips_next_path_witness:
  "open_next_file [''p'' \<mapsto> [], ''q'' \<mapsto> ''skipped'', ''r'' \<mapsto> ''kept''] VectorIterator
      \<lparr>path_it = VectorIterator_begin [''p'', ''q'', ''r''], current_file = None,
       current_line = [], f_is_end = False, opened = []\<rparr>
   = open_next_file [''p'' \<mapsto> [], ''q'' \<mapsto> ''skipped'', ''r'' \<mapsto> ''kept''] VectorIterator
      \<lparr>path_it = \<lparr>v_data = Some [''p'', ''q'', ''r''], v_index = 2, v_is_end = False\<rparr>,
       current_file = None, current_line = [], f_is_end = False, opened = [''p'']\<rparr>
   \<and> AsVector_run (OpenFiles [''p'' \<mapsto> [], ''q'' \<mapsto> ''skipped'', ''r'' \<mapsto> ''kept'']
                     (AsDataFlow [''p'', ''q'', ''r'']))
       = Some (Inr ([''kept''],
                    \<lparr>path_it = \<lparr>v_data = Some [''p'', ''q'', ''r''], v_index = 3, v_is_end = True\<rparr>,
                     current_file = None, current_line = [], f_is_end = True,
                     opened = [''p'', ''r'']\<rparr>))"
proof -
  let ?ps = "[''p'', ''q'', ''r'']"
  let ?fs = "[''p'' \<mapsto> [], ''q'' \<mapsto> ''skipped'', ''r'' \<mapsto> ''kept'']"
  have a: "open_next_file ?fs VectorIterator
      \<lparr>path_it = VectorIterator_begin ?ps, current_file = None,
       current_line = [], f_is_end = False, opened = []\<rparr>
   = open_next_file ?fs VectorIterator
      \<lparr>path_it = \<lparr>v_data = Some ?ps, v_index = 2, v_is_end = False\<rparr>,
       current_file = None, current_line = [], f_is_end = False, opened = [''p'']\<rparr>"
    using C10_empty_first_line_skips_next_path
      [where P = VectorIterator and s = "VectorIterator_begin ?ps" and p = "''p''"
         and s' = "\<lparr>v_data = Some ?ps, v_index = 1, v_is_end = False\<rparr>"
         and s'' = "\<lparr>v_data = Some ?ps, v_index = 2, v_is_end = False\<rparr>"
         and fs = ?fs and content = "[]" and cf = None and cl = "[]" and e = False
         and log = "[]"]
    by (simp add: VectorIterator_begin_def VectorIterator_deref_def VectorIterator_incr_def
          size_t_incr_def SIZE_MAX_def)
  have b: "AsVector_run (OpenFiles ?fs (AsDataFlow ?ps))
       = Some (Inr ([''kept''],
                    \<lparr>path_it = \<lparr>v_data = Some ?ps, v_index = 3, v_is_end = True\<rparr>,
                     current_file = None, current_line = [], f_is_end = True,
                     opened = [''p'', ''r'']\<rparr>))"
    by (simp add: AsVector_run_def OpenFiles_def AsDataFlow_def VectorDataStream_def VectorIterator_begin_def
        open_next_file_def open_next_file_loop.simps AsVector_loop.simps
        FileIterator_deref_def FileIterator_incr_def neq_null_other_def
        VectorIterator_deref_def VectorIterator_incr_def size_t_incr_def SIZE_MAX_def
        ifstream_open_def getline_def
        newline_def Let_def)
  show ?thesis using a b by (rule conjI)
qed

end
